theory Spec2Isabelle
  imports Main
begin

section \<open>Strings\<close>

text \<open>
  A JavaScript string is a sequence of UTF-16 code units; a code unit is modelled by its
  number. \<open>S\<close> turns a literal of the theory into such a sequence.
\<close>

type_synonym js_string = "nat list"

definition S :: "string \<Rightarrow> js_string" where
  "S s = map of_char s"

text \<open>
  \<^verbatim>\<open>String.prototype.trim\<close> removes the code units of ECMAScript's WhiteSpace and
  LineTerminator productions from both ends.
\<close>

definition isWhiteSpace :: "nat \<Rightarrow> bool" where
  "isWhiteSpace c =
     (c = 9 \<or> c = 10 \<or> c = 11 \<or> c = 12 \<or> c = 13 \<or> c = 32 \<or> c = 160 \<or> c = 5760
      \<or> (8192 \<le> c \<and> c \<le> 8202) \<or> c = 8232 \<or> c = 8233 \<or> c = 8239 \<or> c = 8287
      \<or> c = 12288 \<or> c = 65279)"

definition trim :: "js_string \<Rightarrow> js_string" where
  "trim s = rev (dropWhile isWhiteSpace (rev (dropWhile isWhiteSpace s)))"

text \<open>\<^verbatim>\<open>s.includes(sub)\<close>: \<open>sub\<close> occurs in \<open>s\<close> as a contiguous run.\<close>

fun includes_str :: "js_string \<Rightarrow> js_string \<Rightarrow> bool" where
  "includes_str [] sub = (sub = [])"
| "includes_str (c # cs) sub = (take (length sub) (c # cs) = sub \<or> includes_str cs sub)"

text \<open>
  An optional string used as a condition (\<^verbatim>\<open>x ? a : b\<close>, \<^verbatim>\<open>!x\<close>, \<^verbatim>\<open>x || y\<close>):
  \<^verbatim>\<open>undefined\<close> and the empty string are falsy.
\<close>

fun truthy :: "js_string option \<Rightarrow> bool" where
  "truthy None = False"
| "truthy (Some s) = (s \<noteq> [])"

section \<open>Data model\<close>

datatype LanguageKey = python | quickjs | clangpp

text \<open>The \<^verbatim>\<open>needsCompilation\<close> column of \<^verbatim>\<open>supportedLanguages\<close>.\<close>

fun needsCompilation :: "LanguageKey \<Rightarrow> bool" where
  "needsCompilation python = False"
| "needsCompilation quickjs = False"
| "needsCompilation clangpp = True"

text \<open>
  Modelled from the spec: the type \<^verbatim>\<open>RunResult\<close> is declared by the execution
  library, which is not part of the sources. The specification gives it three variants:
  completed (exit code, standard output, standard error, combined terminal transcript),
  crashed (an error description) and terminated. The sources read the fields
  \<^verbatim>\<open>resultType\<close>, \<^verbatim>\<open>exitCode\<close>, \<^verbatim>\<open>stdout\<close>, \<^verbatim>\<open>stderr\<close> and \<^verbatim>\<open>tty\<close>.
\<close>

datatype RunResult =
    Complete (exitCode: int) (stdout: js_string) (stderr: js_string) (tty: js_string)
  | Crash js_string
  | Terminated

datatype TestStatus = Idle | Checking | Pass | Fail

record TestFeedback =
  message :: js_string
  error :: "js_string option"
  expected :: "js_string option"
  received :: "js_string option"

record TestCaseState =
  tc_id :: js_string
  description :: js_string
  stdin :: "js_string option"
  expectedOutput :: "js_string option"
  status :: TestStatus
  feedback :: "TestFeedback option"
  result :: "RunResult option"

record TestCaseTemplate =
  tpl_description :: js_string
  tpl_stdin :: "js_string option"
  tpl_expectedOutput :: "js_string option"

datatype Difficulty = easy | medium | hard

record ProblemState =
  problem_id :: js_string
  problem_title :: js_string
  problem_difficulty :: Difficulty
  problem_description :: js_string
  problem_starterCode :: "LanguageKey \<Rightarrow> js_string"
  problem_testCases :: "TestCaseTemplate list option"

record LanguageProgress =
  lang_code :: js_string
  passed :: bool
  lang_lastAttempted :: js_string

record UserProblemProgress =
  problemId :: js_string
  solved :: bool
  lastAttempted :: js_string
  languages :: "LanguageKey \<rightharpoonup> LanguageProgress"

record RunnoStore =
  code :: js_string
  activeLanguage :: LanguageKey
  testCases :: "TestCaseState list"
  currentProblem :: "ProblemState option"
  userProgress :: "UserProblemProgress list"

section \<open>Store actions\<close>

definition addTestCase :: "TestCaseState \<Rightarrow> RunnoStore \<Rightarrow> RunnoStore" where
  "addTestCase testCase state =
     state\<lparr>testCases := testCases state @ [testCase\<lparr>status := Idle\<rparr>]\<rparr>"

definition setTestStatus ::
  "js_string \<Rightarrow> TestStatus \<Rightarrow> TestFeedback option \<Rightarrow> RunnoStore \<Rightarrow> RunnoStore" where
  "setTestStatus i st fb state =
     state\<lparr>testCases :=
       map (\<lambda>tc. if tc_id tc = i then tc\<lparr>status := st, feedback := fb\<rparr> else tc)
         (testCases state)\<rparr>"

definition setResults :: "js_string \<Rightarrow> RunResult \<Rightarrow> RunnoStore \<Rightarrow> RunnoStore" where
  "setResults i r state =
     state\<lparr>testCases :=
       map (\<lambda>tc. if tc_id tc = i then tc\<lparr>result := Some r\<rparr> else tc) (testCases state)\<rparr>"

definition getProgressForProblem ::
  "js_string \<Rightarrow> RunnoStore \<Rightarrow> UserProblemProgress option" where
  "getProgressForProblem pid state = find (\<lambda>p. problemId p = pid) (userProgress state)"

text \<open>\<^verbatim>\<open>Array.prototype.findIndex\<close>, with \<open>None\<close> for the result \<open>-1\<close>.\<close>

fun findIndex :: "('a \<Rightarrow> bool) \<Rightarrow> 'a list \<Rightarrow> nat option" where
  "findIndex P [] = None"
| "findIndex P (x # xs) = (if P x then Some 0 else map_option Suc (findIndex P xs))"

text \<open>
  \<^verbatim>\<open>updateProblemProgress(passed)\<close>. The time stamp \<^verbatim>\<open>new Date().toISOString()\<close> is
  the parameter \<open>now\<close>.
\<close>

definition updateProblemProgress :: "js_string \<Rightarrow> bool \<Rightarrow> RunnoStore \<Rightarrow> RunnoStore" where
  "updateProblemProgress now p state =
     (case currentProblem state of
        None \<Rightarrow> state
      | Some prob \<Rightarrow>
          (let pid = problem_id prob;
               entry = \<lparr>lang_code = code state, passed = p, lang_lastAttempted = now\<rparr>
           in case findIndex (\<lambda>q. problemId q = pid) (userProgress state) of
                Some existingProgressIndex \<Rightarrow>
                  (let oldProgress = userProgress state ! existingProgressIndex
                   in state\<lparr>userProgress := (userProgress state)
                        [existingProgressIndex :=
                           oldProgress\<lparr>solved := solved oldProgress \<or> p, lastAttempted := now,
                             languages := (languages oldProgress)(activeLanguage state \<mapsto> entry)\<rparr>]\<rparr>)
              | None \<Rightarrow>
                  state\<lparr>userProgress := userProgress state @
                    [\<lparr>problemId = pid, solved = p, lastAttempted = now,
                      languages = [activeLanguage state \<mapsto> entry]\<rparr>]\<rparr>))"

section \<open>The execution gateway\<close>

text \<open>
  \<^verbatim>\<open>headlessRunCode(runtime, code, stdin?)\<close> belongs to the execution library. It is a
  parameter of the model: a gateway answers a call, in a state of the engine, with a
  result or a thrown error, and leaves the engine in a new state. The world of a run
  holds the store, the store states seen by a subscriber (one per \<^verbatim>\<open>set\<close>), the engine
  and the calls issued so far, each with its outcome.
\<close>

record call =
  runtime :: LanguageKey
  source :: js_string
  call_stdin :: "js_string option"

type_synonym js_error = js_string

type_synonym 'g gateway = "call \<Rightarrow> 'g \<Rightarrow> (js_error + RunResult) \<times> 'g"

record 'g world =
  store :: RunnoStore
  observed :: "RunnoStore list"
  engine :: 'g
  calls :: "(call \<times> (js_error + RunResult)) list"

definition set_state :: "(RunnoStore \<Rightarrow> RunnoStore) \<Rightarrow> 'g world \<Rightarrow> 'g world" where
  "set_state f w = w\<lparr>store := f (store w), observed := observed w @ [f (store w)]\<rparr>"

definition headlessRunCode ::
  "'g gateway \<Rightarrow> LanguageKey \<Rightarrow> js_string \<Rightarrow> js_string option \<Rightarrow> 'g world \<Rightarrow>
   (js_error + RunResult) \<times> 'g world" where
  "headlessRunCode gw rt src inp w =
     (let c = \<lparr>runtime = rt, source = src, call_stdin = inp\<rparr>
      in case gw c (engine w) of
           (r, g') \<Rightarrow> (r, w\<lparr>engine := g', calls := calls w @ [(c, r)]\<rparr>))"

text \<open>The line feed and the double quote, as strings of one code unit.\<close>

definition NL :: js_string where
  "NL = [10]"

definition DQ :: js_string where
  "DQ = [34]"

text \<open>
  The marker lines \<^verbatim>\<open>//-compile\<close> and \<^verbatim>\<open>//-run\<close> that the sources put in front of the code
  of a compiled language, and the Python program that the executor wraps around a source
  whose output was \<^verbatim>\<open>None\<close>.
\<close>

definition compileMarker :: js_string where
  "compileMarker = S ''//-compile'' @ NL"

definition runMarker :: js_string where
  "runMarker = S ''//-run'' @ NL"

definition wrappedCode :: "js_string \<Rightarrow> js_string" where
  "wrappedCode src =
     NL @ S ''import sys'' @ NL @ S ''from io import StringIO'' @ NL @ NL
     @ S ''# Capture stdout'' @ NL @ S ''old_stdout = sys.stdout'' @ NL
     @ S ''sys.stdout = mystdout = StringIO()'' @ NL @ NL
     @ S ''# Run the user code'' @ NL @ src @ NL @ NL
     @ S ''# Restore stdout and get the captured output'' @ NL
     @ S ''sys.stdout = old_stdout'' @ NL @ S ''print(mystdout.getvalue())'' @ NL"

text \<open>
  \<^verbatim>\<open>getHeadlessExecutor(language)(code, stdin)\<close> of the language-support module that
  \<^verbatim>\<open>checkCode\<close> imports. The second parameter is named \<open>stdin_arg\<close> here.
\<close>

definition getHeadlessExecutor ::
  "'g gateway \<Rightarrow> LanguageKey \<Rightarrow> js_string \<Rightarrow> js_string \<Rightarrow> 'g world \<Rightarrow>
   (js_error + RunResult) \<times> 'g world" where
  "getHeadlessExecutor gw language src stdin_arg w =
     (if needsCompilation language then
        (case headlessRunCode gw language (compileMarker @ src) None w of
           (Inl e, w1) \<Rightarrow> (Inl e, w1)
         | (Inr compileResult, w1) \<Rightarrow>
             (case compileResult of
                Complete ec out err t \<Rightarrow>
                  if ec \<noteq> 0 then (Inr compileResult, w1)
                  else headlessRunCode gw language (runMarker @ src) None w1
              | _ \<Rightarrow> headlessRunCode gw language (runMarker @ src) None w1))
      else
        (case headlessRunCode gw language src None w of
           (Inl e, w1) \<Rightarrow> (Inl e, w1)
         | (Inr r, w1) \<Rightarrow>
             (case r of
                Complete ec out err t \<Rightarrow>
                  if language = python \<and> out = S ''None'' \<and> includes_str src (S ''print('')
                  then headlessRunCode gw language (wrappedCode src) None w1
                  else (Inr r, w1)
              | _ \<Rightarrow> (Inr r, w1))))"

text \<open>
  The executor of the step-by-step guide, \<^verbatim>\<open>getHeadlessExecutor(language)(runElement, code,
  stdin)\<close>. Its \<^verbatim>\<open>runElement\<close> has type \<^verbatim>\<open>any\<close>, and \<^verbatim>\<open>compileResult.exitCode !== 0\<close>
  is read without a test of the result type: on a crashed or terminated result the field
  is \<^verbatim>\<open>undefined\<close>, which differs from \<open>0\<close>.
\<close>

definition getHeadlessExecutor_runElement ::
  "'g gateway \<Rightarrow> LanguageKey \<Rightarrow> js_string \<Rightarrow> js_string \<Rightarrow> 'g world \<Rightarrow>
   (js_error + RunResult) \<times> 'g world" where
  "getHeadlessExecutor_runElement gw language src stdin_arg w =
     (if needsCompilation language then
        (case headlessRunCode gw language (compileMarker @ src) (Some []) w of
           (Inl e, w1) \<Rightarrow> (Inl e, w1)
         | (Inr compileResult, w1) \<Rightarrow>
             (case compileResult of
                Complete ec out err t \<Rightarrow>
                  if ec \<noteq> 0 then (Inr compileResult, w1)
                  else headlessRunCode gw language (runMarker @ src) (Some stdin_arg) w1
              | _ \<Rightarrow> (Inr compileResult, w1)))
      else headlessRunCode gw language src (Some stdin_arg) w)"

section \<open>Classification of a result\<close>

text \<open>
  The block of \<^verbatim>\<open>checkCode\<close> after \<^verbatim>\<open>// Process the result\<close>: the status and feedback
  that \<^verbatim>\<open>setTestStatus\<close> receives for a result and the expected output of the test case.
\<close>

definition feedbackOf :: "string \<Rightarrow> TestFeedback" where
  "feedbackOf m = \<lparr>message = S m, error = None, expected = None, received = None\<rparr>"

fun classify :: "RunResult \<Rightarrow> js_string option \<Rightarrow> TestStatus \<times> TestFeedback option" where
  "classify (Crash e) expectedOut =
     (Fail, Some (feedbackOf ''There was a system error running your program.''))"
| "classify Terminated expectedOut =
     (Fail, Some (feedbackOf ''Your program was terminated early.''))"
| "classify (Complete ec out err t) expectedOut =
     (if ec \<noteq> 0 then
        (Fail, Some ((feedbackOf ''Your program had an error.'')\<lparr>error := Some t\<rparr>))
      else if \<not> truthy expectedOut then (Pass, None)
      else if trim out = trim (the expectedOut) then (Pass, None)
      else (Fail, Some ((feedbackOf ''Your output didn't match what we expected.'')
              \<lparr>expected := expectedOut, received := Some out\<rparr>)))"

section \<open>Preparing the code of a test case\<close>

text \<open>
  \<^verbatim>\<open>checkCode\<close> rewrites the source text per test case with regular expressions. The
  matching engine belongs to the language run-time and is a parameter: \<open>re_match\<close> is
  \<^verbatim>\<open>String.prototype.match\<close> (the match followed by its groups) and \<open>re_replace\<close> is
  \<^verbatim>\<open>String.prototype.replace\<close>. The eight literals of the source are named:
  \<^item> \<open>DescTwoSum\<close>: \<^verbatim>\<open>/nums = \[([\d,]+)\], target = (\d+)/\<close>
  \<^item> \<open>PyTwoSumCall\<close>: \<^verbatim>\<open>/print\(twoSum\(\[.*?\], \d+\)\)/g\<close>
  \<^item> \<open>JsTwoSumCall\<close>: \<^verbatim>\<open>/console\.log\(twoSum\(\[.*?\], \d+\)\)/g\<close>
  \<^item> \<open>CppTwoSumInit\<close>: \<^verbatim>\<open>/std::vector<int> nums = \{.*?\};[\s\S]*?int target = \d+;/g\<close>
  \<^item> \<open>DescValidParens\<close>: \<^verbatim>\<open>/s = "([^"]+)"/\<close>
  \<^item> \<open>PyIsValidCall\<close>: \<^verbatim>\<open>/print\(isValid\(".*?"\)\)/g\<close>
  \<^item> \<open>JsIsValidCall\<close>: \<^verbatim>\<open>/console\.log\(isValid\(".*?"\)\)/g\<close>
  \<^item> \<open>CppIsValidCall\<close>: \<^verbatim>\<open>/std::cout << \(isValid\(".*?"\)/g\<close>
\<close>

datatype regex_literal =
    DescTwoSum | PyTwoSumCall | JsTwoSumCall | CppTwoSumInit
  | DescValidParens | PyIsValidCall | JsIsValidCall | CppIsValidCall

record regexp_engine =
  re_match :: "regex_literal \<Rightarrow> js_string \<Rightarrow> js_string list option"
  re_replace :: "regex_literal \<Rightarrow> js_string \<Rightarrow> js_string \<Rightarrow> js_string"

text \<open>\<^verbatim>\<open>match[i]\<close> inside a template literal: a missing element prints as \<^verbatim>\<open>undefined\<close>.\<close>

definition matchGroup :: "js_string list \<Rightarrow> nat \<Rightarrow> js_string" where
  "matchGroup m i = (if i < length m then m ! i else S ''undefined'')"

text \<open>\<^verbatim>\<open>code.replace(re, call)\<close>, then the call appended when \<open>marker\<close> is absent.\<close>

definition replaceOrAppend ::
  "regexp_engine \<Rightarrow> regex_literal \<Rightarrow> js_string \<Rightarrow> js_string \<Rightarrow> js_string \<Rightarrow> js_string" where
  "replaceOrAppend re lit src call marker =
     (let replaced = re_replace re lit src call
      in if \<not> includes_str replaced marker then replaced @ NL @ NL @ call else replaced)"

definition codeToRun ::
  "regexp_engine \<Rightarrow> ProblemState option \<Rightarrow> LanguageKey \<Rightarrow> TestCaseState \<Rightarrow> js_string \<Rightarrow>
   js_string" where
  "codeToRun re prob lang testCase src =
     (case prob of
        None \<Rightarrow> src
      | Some p \<Rightarrow>
          if problem_id p = S ''two-sum'' then
            (case re_match re DescTwoSum (description testCase) of
               None \<Rightarrow> src
             | Some m \<Rightarrow>
                 (let numsArray = matchGroup m 1; target = matchGroup m 2
                  in case lang of
                       python \<Rightarrow>
                         replaceOrAppend re PyTwoSumCall src
                           (S ''print(twoSum(['' @ numsArray @ S ''], '' @ target @ S ''))'')
                           (S ''print(twoSum('')
                     | quickjs \<Rightarrow>
                         replaceOrAppend re JsTwoSumCall src
                           (S ''console.log(twoSum(['' @ numsArray @ S ''], '' @ target @ S ''))'')
                           (S ''console.log(twoSum('')
                     | clangpp \<Rightarrow>
                         re_replace re CppTwoSumInit src
                           (S ''std::vector<int> nums = {'' @ numsArray @ S ''};'' @ NL
                            @ S ''    int target = '' @ target @ S '';'')))
          else if problem_id p = S ''valid-parentheses'' then
            (case re_match re DescValidParens (description testCase) of
               None \<Rightarrow> src
             | Some m \<Rightarrow>
                 (let input = matchGroup m 1
                  in case lang of
                       python \<Rightarrow>
                         replaceOrAppend re PyIsValidCall src
                           (S ''print(isValid('' @ DQ @ input @ DQ @ S ''))'') (S ''print(isValid('')
                     | quickjs \<Rightarrow>
                         replaceOrAppend re JsIsValidCall src
                           (S ''console.log(isValid('' @ DQ @ input @ DQ @ S ''))'')
                           (S ''console.log(isValid('')
                     | clangpp \<Rightarrow>
                         re_replace re CppIsValidCall src
                           (S ''std::cout << (isValid('' @ DQ @ input @ DQ @ S '')'')))
          else src)"

text \<open>\<^verbatim>\<open>testCase.stdin ? testCase.stdin + '\n' : ''\<close>\<close>

definition stdinOf :: "TestCaseState \<Rightarrow> js_string" where
  "stdinOf testCase = (if truthy (stdin testCase) then the (stdin testCase) @ NL else [])"

section \<open>The test sequencer\<close>

text \<open>
  The \<^verbatim>\<open>for\<close> loop of \<^verbatim>\<open>checkCode\<close> over the test cases read at entry. The first
  component of the result is the error thrown out of the loop, if any.
\<close>

fun checkCode_loop ::
  "'g gateway \<Rightarrow> regexp_engine \<Rightarrow> js_string \<Rightarrow> LanguageKey \<Rightarrow> ProblemState option \<Rightarrow>
   TestCaseState list \<Rightarrow> 'g world \<Rightarrow> js_error option \<times> 'g world" where
  "checkCode_loop gw re src lang prob [] w = (None, w)"
| "checkCode_loop gw re src lang prob (testCase # rest) w =
     (let w1 = set_state (setTestStatus (tc_id testCase) Checking None) w
      in case getHeadlessExecutor gw lang (codeToRun re prob lang testCase src)
                (stdinOf testCase) w1 of
           (Inl e, w2) \<Rightarrow> (Some e, w2)
         | (Inr r, w2) \<Rightarrow>
             (let w3 = set_state (setResults (tc_id testCase) r) w2;
                  v = classify r (expectedOutput testCase);
                  w4 = set_state (setTestStatus (tc_id testCase) (fst v) (snd v)) w3
              in checkCode_loop gw re src lang prob rest w4))"

definition unexpectedError :: TestFeedback where
  "unexpectedError = feedbackOf ''An unexpected error occurred while checking your code.''"

text \<open>The \<^verbatim>\<open>catch\<close> block: every test case read at entry is set to fail.\<close>

definition failAll :: "TestCaseState list \<Rightarrow> 'g world \<Rightarrow> 'g world" where
  "failAll tcs w =
     fold (\<lambda>testCase. set_state (setTestStatus (tc_id testCase) Fail (Some unexpectedError)))
       tcs w"

text \<open>
  \<^verbatim>\<open>checkCode(code)\<close>. The first component is the error that leaves the function; the
  \<^verbatim>\<open>catch\<close> block handles every error of the loop.
\<close>

definition checkCode ::
  "'g gateway \<Rightarrow> regexp_engine \<Rightarrow> js_string \<Rightarrow> 'g world \<Rightarrow> js_error option \<times> 'g world" where
  "checkCode gw re src w =
     (let tcs = testCases (store w); lang = activeLanguage (store w);
          prob = currentProblem (store w)
      in case checkCode_loop gw re src lang prob tcs w of
           (None, w') \<Rightarrow> (None, w')
         | (Some e, w') \<Rightarrow> (None, failAll tcs w'))"

text \<open>
  \<^verbatim>\<open>checkCppCode(code)\<close> of the same module: one compile call, then one run call per
  test case. \<^verbatim>\<open>compileResult.stderr || compileResult.tty\<close> takes the transcript when the
  standard error is empty.
\<close>

fun checkCppCode_loop ::
  "'g gateway \<Rightarrow> js_string \<Rightarrow> TestCaseState list \<Rightarrow> 'g world \<Rightarrow> js_error option \<times> 'g world" where
  "checkCppCode_loop gw src [] w = (None, w)"
| "checkCppCode_loop gw src (testCase # rest) w =
     (let w1 = set_state (setTestStatus (tc_id testCase) Checking None) w
      in case headlessRunCode gw clangpp (runMarker @ src) (Some (stdinOf testCase)) w1 of
           (Inl e, w2) \<Rightarrow> (Some e, w2)
         | (Inr r, w2) \<Rightarrow>
             (let w3 = set_state (setResults (tc_id testCase) r) w2;
                  v = classify r (expectedOutput testCase);
                  w4 = set_state (setTestStatus (tc_id testCase) (fst v) (snd v)) w3
              in checkCppCode_loop gw src rest w4))"

definition compilationFailed :: "js_string \<Rightarrow> js_string \<Rightarrow> TestFeedback" where
  "compilationFailed err t =
     (feedbackOf ''Compilation failed.'')\<lparr>error := Some (if err \<noteq> [] then err else t)\<rparr>"

definition checkCppCode_body ::
  "'g gateway \<Rightarrow> js_string \<Rightarrow> TestCaseState list \<Rightarrow> 'g world \<Rightarrow> js_error option \<times> 'g world" where
  "checkCppCode_body gw src tcs w =
     (case headlessRunCode gw clangpp (compileMarker @ src) None w of
        (Inl e, w1) \<Rightarrow> (Some e, w1)
      | (Inr compileResult, w1) \<Rightarrow>
          (case compileResult of
             Complete ec out err t \<Rightarrow>
               if ec \<noteq> 0 then
                 (None, fold (\<lambda>testCase. set_state
                           (setTestStatus (tc_id testCase) Fail (Some (compilationFailed err t))))
                         tcs w1)
               else checkCppCode_loop gw src tcs w1
           | _ \<Rightarrow> checkCppCode_loop gw src tcs w1))"

definition checkCppCode ::
  "'g gateway \<Rightarrow> js_string \<Rightarrow> 'g world \<Rightarrow> js_error option \<times> 'g world" where
  "checkCppCode gw src w =
     (let tcs = testCases (store w)
      in case checkCppCode_body gw src tcs w of
           (None, w') \<Rightarrow> (None, w')
         | (Some e, w') \<Rightarrow> (None, failAll tcs w'))"

subsection \<open>The first listing of the module\<close>

text \<open>
  The module comes in two listings; the first is the one of the step-by-step guide and
  the second, given above, is the one that \<^verbatim>\<open>runTests\<close> imports. In the first
  \<^verbatim>\<open>checkCode(code)\<close> and
  \<^verbatim>\<open>checkCppCode(code)\<close> create a hidden \<^verbatim>\<open>runno-run\<close> element, call its
  \<^verbatim>\<open>headlessRunCode\<close> inside \<^verbatim>\<open>try { ... } finally { ... }\<close> and remove the element in the
  \<^verbatim>\<open>finally\<close> block. There is no \<^verbatim>\<open>catch\<close> block: the first component of the result is
  the error that leaves the function. This \<^verbatim>\<open>checkCode\<close> runs every test case with the
  runtime \<^verbatim>\<open>"python"\<close> on the code as it is and passes the standard input of the test case
  to the call; this \<^verbatim>\<open>checkCppCode\<close> passes \<^verbatim>\<open>""\<close> to its compile call and has the loop of
  the second listing. The element and the document are not part of the world. The store
  that goes with the first listing calls the initial status \<^verbatim>\<open>none\<close> and keeps the results
  of \<^verbatim>\<open>setResults\<close> in a record beside the test cases; its \<^verbatim>\<open>setTestStatus\<close> is the one
  above. Both functions are given over the store above.
\<close>

fun checkCode_runElement_loop ::
  "'g gateway \<Rightarrow> js_string \<Rightarrow> TestCaseState list \<Rightarrow> 'g world \<Rightarrow> js_error option \<times> 'g world" where
  "checkCode_runElement_loop gw src [] w = (None, w)"
| "checkCode_runElement_loop gw src (testCase # rest) w =
     (let w1 = set_state (setTestStatus (tc_id testCase) Checking None) w
      in case headlessRunCode gw python src (Some (stdinOf testCase)) w1 of
           (Inl e, w2) \<Rightarrow> (Some e, w2)
         | (Inr r, w2) \<Rightarrow>
             (let w3 = set_state (setResults (tc_id testCase) r) w2;
                  v = classify r (expectedOutput testCase);
                  w4 = set_state (setTestStatus (tc_id testCase) (fst v) (snd v)) w3
              in checkCode_runElement_loop gw src rest w4))"

definition checkCode_runElement ::
  "'g gateway \<Rightarrow> js_string \<Rightarrow> 'g world \<Rightarrow> js_error option \<times> 'g world" where
  "checkCode_runElement gw src w = checkCode_runElement_loop gw src (testCases (store w)) w"

definition checkCppCode_runElement ::
  "'g gateway \<Rightarrow> js_string \<Rightarrow> 'g world \<Rightarrow> js_error option \<times> 'g world" where
  "checkCppCode_runElement gw src w =
     (let tcs = testCases (store w)
      in case headlessRunCode gw clangpp (compileMarker @ src) (Some []) w of
           (Inl e, w1) \<Rightarrow> (Some e, w1)
         | (Inr compileResult, w1) \<Rightarrow>
             (case compileResult of
                Complete ec out err t \<Rightarrow>
                  if ec \<noteq> 0 then
                    (None, fold (\<lambda>testCase. set_state
                              (setTestStatus (tc_id testCase) Fail (Some (compilationFailed err t))))
                            tcs w1)
                  else checkCppCode_loop gw src tcs w1
              | _ \<Rightarrow> checkCppCode_loop gw src tcs w1))"

section \<open>The submission\<close>

text \<open>\<^verbatim>\<open>x || ''\<close> on an optional string.\<close>

definition orEmpty :: "js_string option \<Rightarrow> js_string" where
  "orEmpty x = (if truthy x then the x else [])"

definition fromTemplate :: "js_string \<Rightarrow> TestCaseTemplate \<Rightarrow> TestCaseState" where
  "fromTemplate i t =
     \<lparr>tc_id = i, description = tpl_description t, stdin = Some (orEmpty (tpl_stdin t)),
      expectedOutput = Some (orEmpty (tpl_expectedOutput t)), status = Idle,
      feedback = None, result = None\<rparr>"

definition fallbackTestCase :: "js_string \<Rightarrow> TestCaseState" where
  "fallbackTestCase i =
     \<lparr>tc_id = i, description = S ''Test case 1'', stdin = Some [], expectedOutput = Some [],
      status = Idle, feedback = None, result = None\<rparr>"

definition allPassed :: "RunnoStore \<Rightarrow> bool" where
  "allPassed state = list_all (\<lambda>tc. status tc = Pass) (testCases state)"

text \<open>
  \<^verbatim>\<open>runTests\<close> of the right pane (the Submit button). The component reads
  \<^verbatim>\<open>testCases\<close>, \<^verbatim>\<open>code\<close> and \<^verbatim>\<open>currentProblem\<close> from the store when it renders; they
  are the values of the store at entry, and \<^verbatim>\<open>testCases\<close> keeps that value while
  \<^verbatim>\<open>addTestCase\<close> changes the store. \<^verbatim>\<open>uuidv4()\<close> is the parameter \<open>uuidv4\<close>, asked for
  its \<open>i\<close>-th identifier, and the time stamp is \<open>now\<close>. The \<^verbatim>\<open>setTimeout\<close> callback reads
  the store again and runs after \<^verbatim>\<open>checkCode\<close> has returned.
\<close>

definition runTests ::
  "'g gateway \<Rightarrow> regexp_engine \<Rightarrow> (nat \<Rightarrow> js_string) \<Rightarrow> js_string \<Rightarrow> 'g world \<Rightarrow> 'g world" where
  "runTests gw re uuidv4 now w =
     (let tcs = testCases (store w); src = code (store w);
          templates = (case currentProblem (store w) of
                         None \<Rightarrow> None | Some p \<Rightarrow> problem_testCases p);
          w1 = (if tcs = [] then
                  (case templates of
                     Some ts \<Rightarrow>
                       fold (\<lambda>(i, t). set_state (addTestCase (fromTemplate (uuidv4 i) t)))
                         (enumerate 0 ts) w
                   | None \<Rightarrow> set_state (addTestCase (fallbackTestCase (uuidv4 0))) w)
                else w);
          w2 = fold (\<lambda>testCase. set_state (setTestStatus (tc_id testCase) Checking None)) tcs w1
      in case checkCode gw re src w2 of
           (Some e, w3) \<Rightarrow> w3
         | (None, w3) \<Rightarrow> set_state (updateProblemProgress now (allPassed (store w3))) w3)"

section \<open>Notions of the statements\<close>

text \<open>
  A call in compile mode or in run mode is recognised by the marker line that starts its
  source text.
\<close>

definition isCompileCall :: "call \<Rightarrow> bool" where
  "isCompileCall c = (take (length compileMarker) (source c) = compileMarker)"

definition isRunCall :: "call \<Rightarrow> bool" where
  "isRunCall c = (take (length runMarker) (source c) = runMarker)"

text \<open>
  The outcome of a compile call that stops the executor and \<^verbatim>\<open>checkCppCode\<close>:
  \<^verbatim>\<open>compileResult.resultType === "complete" && compileResult.exitCode !== 0\<close>.
\<close>

fun failedCompile :: "js_error + RunResult \<Rightarrow> bool" where
  "failedCompile (Inr (Complete ec out err t)) = (ec \<noteq> 0)"
| "failedCompile r = False"

text \<open>
  A test case is settled when its status is pass or fail. A list of statuses is in order
  when nothing is checking behind a case that is not settled; it is settled first when
  its settled cases come first and every other case is checking.
\<close>

definition settled :: "TestStatus \<Rightarrow> bool" where
  "settled s = (s = Pass \<or> s = Fail)"

fun inOrder :: "TestStatus list \<Rightarrow> bool" where
  "inOrder [] = True"
| "inOrder (s # ss) = (if settled s then inOrder ss else Checking \<notin> set ss)"

fun settledFirst :: "TestStatus list \<Rightarrow> bool" where
  "settledFirst [] = True"
| "settledFirst (s # ss) =
     (if settled s then settledFirst ss else list_all (\<lambda>x. x = Checking) (s # ss))"

section \<open>Notions of the proofs\<close>

text \<open>
  The fields of a test case that the sequencer reads and never writes, and the stores
  that agree on them and on everything but the test-case list.
\<close>

definition static :: "TestCaseState \<Rightarrow> js_string \<times> js_string \<times> js_string option \<times> js_string option" where
  "static tc = (tc_id tc, description tc, stdin tc, expectedOutput tc)"

definition sameSubmission :: "RunnoStore \<Rightarrow> RunnoStore \<Rightarrow> bool" where
  "sameSubmission s s' =
     (code s' = code s \<and> activeLanguage s' = activeLanguage s \<and>
      currentProblem s' = currentProblem s \<and> userProgress s' = userProgress s \<and>
      map static (testCases s') = map static (testCases s))"

definition sameContext :: "RunnoStore \<Rightarrow> RunnoStore \<Rightarrow> bool" where
  "sameContext s s' =
     (code s' = code s \<and> activeLanguage s' = activeLanguage s \<and>
      currentProblem s' = currentProblem s \<and> userProgress s' = userProgress s)"

text \<open>
  Every store action of the sequencer overwrites the status and feedback, or the result,
  of the test cases with one identifier. \<open>overwriteById\<close> is the general form of a
  sequence of such actions.
\<close>

definition overwrite ::
  "(TestStatus \<times> TestFeedback option) option \<Rightarrow> RunResult option \<Rightarrow> TestCaseState \<Rightarrow>
   TestCaseState" where
  "overwrite sf r t =
     (let t1 = (case sf of None \<Rightarrow> t | Some v \<Rightarrow> t\<lparr>status := fst v, feedback := snd v\<rparr>)
      in case r of None \<Rightarrow> t1 | Some x \<Rightarrow> t1\<lparr>result := Some x\<rparr>)"

definition overwriteById ::
  "(js_string \<Rightarrow> (TestStatus \<times> TestFeedback option) option) \<Rightarrow> (js_string \<Rightarrow> RunResult option) \<Rightarrow>
   RunnoStore \<Rightarrow> RunnoStore" where
  "overwriteById f g s =
     s\<lparr>testCases := map (\<lambda>t. overwrite (f (tc_id t)) (g (tc_id t)) t) (testCases s)\<rparr>"

definition programError :: "TestCaseState \<Rightarrow> bool" where
  "programError t =
     (status t = Fail \<and>
      map_option message (feedback t) = Some (S ''Your program had an error.''))"

section \<open>Concrete inputs\<close>

text \<open>Stores, engines and problems at which the properties below are evaluated.\<close>

definition emptyStore :: RunnoStore where
  "emptyStore = \<lparr>code = [], activeLanguage = python, testCases = [], currentProblem = None,
                  userProgress = []\<rparr>"

definition startWorld :: "RunnoStore \<Rightarrow> unit world" where
  "startWorld state = \<lparr>store = state, observed = [], engine = (), calls = []\<rparr>"

definition cleanExitEngine :: "unit gateway" where
  "cleanExitEngine c g = (Inr (Complete 0 [] [] []), g)"

definition rejectingCompiler :: "unit gateway" where
  "rejectingCompiler c g =
     (if source c = compileMarker @ S ''c'' then Inr (Complete 1 [] (S ''e'') (S ''t''))
      else Inr (Complete 0 [] [] []), g)"

definition throwingEngine :: "unit gateway" where
  "throwingEngine c g = (Inl (S ''boom''), g)"

definition crashingEngine :: "unit gateway" where
  "crashingEngine c g = (Inr (Crash (S ''crash'')), g)"

definition fixedUuid :: "nat \<Rightarrow> js_string" where
  "fixedUuid i = S ''u''"

definition noRegexp :: regexp_engine where
  "noRegexp = \<lparr>re_match = (\<lambda>lit s. None), re_replace = (\<lambda>lit s r. s)\<rparr>"

definition emptyProblem :: ProblemState where
  "emptyProblem = \<lparr>problem_id = S ''p'', problem_title = [], problem_difficulty = easy,
     problem_description = [], problem_starterCode = (\<lambda>l. []), problem_testCases = Some []\<rparr>"

definition twoLanguages :: RunnoStore where
  "twoLanguages =
     \<lparr>code = S ''c'', activeLanguage = clangpp, testCases = [],
      currentProblem = Some (emptyProblem\<lparr>problem_id := S ''a''\<rparr>),
      userProgress =
        [\<lparr>problemId = S ''b'', solved = False, lastAttempted = S ''1'', languages = Map.empty\<rparr>,
         \<lparr>problemId = S ''a'', solved = True, lastAttempted = S ''2'',
          languages = [python \<mapsto> \<lparr>lang_code = S ''d'', passed = True, lang_lastAttempted = S ''2''\<rparr>]\<rparr>]\<rparr>"

definition twoCases :: RunnoStore where
  "twoCases =
     \<lparr>code = S ''c'', activeLanguage = clangpp,
      testCases =
        [\<lparr>tc_id = S ''1'', description = [], stdin = Some (S ''5''), expectedOutput = Some (S ''5''),
          status = Idle, feedback = None, result = None\<rparr>,
         \<lparr>tc_id = S ''2'', description = [], stdin = None, expectedOutput = None,
          status = Idle, feedback = None, result = None\<rparr>],
      currentProblem = None, userProgress = []\<rparr>"

section \<open>Basic facts\<close>

lemmas run_defs =
  checkCode_def checkCppCode_def checkCppCode_body_def failAll_def set_state_def
  setTestStatus_def setResults_def getHeadlessExecutor_def headlessRunCode_def codeToRun_def
  stdinOf_def startWorld_def Let_def

lemmas submit_defs =
  runTests_def updateProblemProgress_def allPassed_def feedbackOf_def trim_def isWhiteSpace_def

lemma set_state_simps [simp]:
  "store (set_state f w) = f (store w)"
  "observed (set_state f w) = observed w @ [f (store w)]"
  "engine (set_state f w) = engine w"
  "calls (set_state f w) = calls w"
  by (simp_all add: set_state_def)

lemma headlessRunCode_eq:
  "headlessRunCode gw rt src inp w =
     (fst (gw \<lparr>runtime = rt, source = src, call_stdin = inp\<rparr> (engine w)),
      w\<lparr>engine := snd (gw \<lparr>runtime = rt, source = src, call_stdin = inp\<rparr> (engine w)),
        calls := calls w @ [(\<lparr>runtime = rt, source = src, call_stdin = inp\<rparr>,
                  fst (gw \<lparr>runtime = rt, source = src, call_stdin = inp\<rparr> (engine w)))]\<rparr>)"
  by (simp add: headlessRunCode_def Let_def split: prod.splits)

lemma executor_store [simp]:
  "store (snd (getHeadlessExecutor gw l src sin w)) = store w"
  by (simp add: getHeadlessExecutor_def headlessRunCode_eq split: sum.splits RunResult.splits)

lemma executor_observed [simp]:
  "observed (snd (getHeadlessExecutor gw l src sin w)) = observed w"
  by (simp add: getHeadlessExecutor_def headlessRunCode_eq split: sum.splits RunResult.splits)

lemma executor_snd:
  "getHeadlessExecutor gw l src sin w = (r, w2) \<Longrightarrow> store w2 = store w \<and> observed w2 = observed w"
  using executor_store [of gw l src sin w] executor_observed [of gw l src sin w] by simp

lemma isl_sym: "Inl e = x \<Longrightarrow> isl x"
  by auto

lemma executor_calls:
  "\<exists>new. calls (snd (getHeadlessExecutor gw l src sin w)) = calls w @ new
     \<and> ((\<exists>c e. (c, Inl e) \<in> set new) \<longrightarrow> isl (fst (getHeadlessExecutor gw l src sin w)))"
  by (cases "needsCompilation l")
     (auto simp: getHeadlessExecutor_def headlessRunCode_eq intro: isl_sym
        split: sum.splits RunResult.splits)

lemma executor_engine:
  assumes "engine w = engine v"
  shows "fst (getHeadlessExecutor gw l src sin w) = fst (getHeadlessExecutor gw l src sin v)
       \<and> engine (snd (getHeadlessExecutor gw l src sin w)) =
           engine (snd (getHeadlessExecutor gw l src sin v))"
  using assms
  by (cases "needsCompilation l")
     (auto simp: getHeadlessExecutor_def headlessRunCode_eq split: sum.splits RunResult.splits)

lemma set_tl_subset: "x \<in> set (tl xs) \<Longrightarrow> x \<in> set xs"
  by (cases xs) auto

lemma two_elements:
  "length xs = 2 \<Longrightarrow> \<forall>t\<in>set xs. P t \<Longrightarrow> \<exists>a b. xs = [a, b] \<and> P a \<and> P b"
proof -
  assume l: "length xs = 2" and p: "\<forall>t\<in>set xs. P t"
  from l obtain a ys where xs: "xs = a # ys" by (cases xs) auto
  with l obtain b zs where ys: "ys = b # zs" by (cases ys) auto
  with l xs have "zs = []" by simp
  with xs ys p show ?thesis by simp
qed

lemma updateProblemProgress_testCases [simp]:
  "testCases (updateProblemProgress now p state) = testCases state"
  by (simp add: updateProblemProgress_def Let_def split: option.splits)

subsection \<open>What the sequencer leaves unchanged\<close>

lemma sameSubmission_refl [simp]: "sameSubmission s s"
  by (simp add: sameSubmission_def)

lemma sameSubmission_trans:
  "sameSubmission s s' \<Longrightarrow> sameSubmission s' s'' \<Longrightarrow> sameSubmission s s''"
  by (simp add: sameSubmission_def)

lemma static_setTestStatus:
  "map static (testCases (setTestStatus i st fb s)) = map static (testCases s)"
  by (auto simp: setTestStatus_def static_def)

lemma static_setResults:
  "map static (testCases (setResults i r s)) = map static (testCases s)"
  by (auto simp: setResults_def static_def)

lemma sameSubmission_setTestStatus [simp]:
  "sameSubmission s (setTestStatus i st fb s') = sameSubmission s s'"
  by (simp add: sameSubmission_def static_setTestStatus) (simp add: setTestStatus_def)

lemma sameSubmission_setResults [simp]:
  "sameSubmission s (setResults i r s') = sameSubmission s s'"
  by (simp add: sameSubmission_def static_setResults) (simp add: setResults_def)

lemma sameSubmission_ids:
  "sameSubmission s s' \<Longrightarrow> map tc_id (testCases s') = map tc_id (testCases s)"
proof -
  assume "sameSubmission s s'"
  then have "map static (testCases s') = map static (testCases s)"
    by (simp add: sameSubmission_def)
  then have "map (fst \<circ> static) (testCases s') = map (fst \<circ> static) (testCases s)"
    by (metis map_map)
  moreover have "fst \<circ> static = tc_id"
    by (simp add: fun_eq_iff static_def)
  ultimately show ?thesis by simp
qed

lemma checkCode_loop_same:
  "sameSubmission (store w) (store (snd (checkCode_loop gw re src lang prob tcs w)))"
proof (induction tcs arbitrary: w)
  case Nil
  show ?case by simp
next
  case (Cons tc rest)
  let ?w1 = "set_state (setTestStatus (tc_id tc) Checking None) w"
  obtain r w2 where ex:
    "getHeadlessExecutor gw lang (codeToRun re prob lang tc src) (stdinOf tc) ?w1 = (r, w2)"
    by (cases "getHeadlessExecutor gw lang (codeToRun re prob lang tc src) (stdinOf tc) ?w1")
  have s2: "store w2 = store ?w1"
    using executor_store [of gw lang "codeToRun re prob lang tc src" "stdinOf tc" ?w1]
    by (simp add: ex)
  show ?case
  proof (cases r)
    case (Inl e)
    with ex s2 show ?thesis by simp
  next
    case (Inr res)
    let ?w4 = "set_state (setTestStatus (tc_id tc) (fst (classify res (expectedOutput tc)))
                 (snd (classify res (expectedOutput tc))))
                 (set_state (setResults (tc_id tc) res) w2)"
    have "sameSubmission (store w) (store ?w4)"
      using s2 by simp
    from sameSubmission_trans [OF this Cons.IH [of ?w4] ] ex Inr
    show ?thesis by (simp add: Let_def)
  qed
qed

lemma checkCode_loop_calls:
  "\<exists>new. calls (snd (checkCode_loop gw re src lang prob tcs w)) = calls w @ new
     \<and> ((\<exists>c e. (c, Inl e) \<in> set new) \<longrightarrow> fst (checkCode_loop gw re src lang prob tcs w) \<noteq> None)"
proof (induction tcs arbitrary: w)
  case Nil
  show ?case by simp
next
  case (Cons tc rest)
  let ?w1 = "set_state (setTestStatus (tc_id tc) Checking None) w"
  obtain r w2 where ex:
    "getHeadlessExecutor gw lang (codeToRun re prob lang tc src) (stdinOf tc) ?w1 = (r, w2)"
    by (cases "getHeadlessExecutor gw lang (codeToRun re prob lang tc src) (stdinOf tc) ?w1")
  from executor_calls [of gw lang "codeToRun re prob lang tc src" "stdinOf tc" ?w1]
  obtain new where new: "calls w2 = calls w @ new" "(\<exists>c e. (c, Inl e) \<in> set new) \<longrightarrow> isl r"
    by (auto simp: ex)
  show ?case
  proof (cases r)
    case (Inl e)
    with ex new show ?thesis by simp
  next
    case (Inr res)
    let ?w4 = "set_state (setTestStatus (tc_id tc) (fst (classify res (expectedOutput tc)))
                 (snd (classify res (expectedOutput tc))))
                 (set_state (setResults (tc_id tc) res) w2)"
    from Cons.IH [of ?w4] obtain new' where new':
      "calls (snd (checkCode_loop gw re src lang prob rest ?w4)) = calls ?w4 @ new'"
      "(\<exists>c e. (c, Inl e) \<in> set new') \<longrightarrow> fst (checkCode_loop gw re src lang prob rest ?w4) \<noteq> None"
      by blast
    from Inr new(2) have no: "\<not> (\<exists>c e. (c, Inl e) \<in> set new)" by auto
    have "calls (snd (checkCode_loop gw re src lang prob (tc # rest) w)) = calls w @ (new @ new')"
      using ex Inr new(1) new'(1) by (simp add: Let_def)
    moreover have "(\<exists>c e. (c, Inl e) \<in> set (new @ new')) \<longrightarrow>
        fst (checkCode_loop gw re src lang prob (tc # rest) w) \<noteq> None"
      using ex Inr no new'(2) by (auto simp: Let_def)
    ultimately show ?thesis by blast
  qed
qed

lemma fold_setTestStatus:
  "testCases (store (fold (\<lambda>tc. set_state (setTestStatus (tc_id tc) st fb)) tcs w)) =
     map (\<lambda>t. if tc_id t \<in> tc_id ` set tcs then t\<lparr>status := st, feedback := fb\<rparr> else t)
       (testCases (store w))"
proof (induction tcs arbitrary: w)
  case Nil
  show ?case by simp
next
  case (Cons tc rest)
  show ?case
    by (simp add: Cons.IH) (simp add: setTestStatus_def comp_def)
qed

lemma fold_setTestStatus_frame [simp]:
  "calls (fold (\<lambda>tc. set_state (setTestStatus (tc_id tc) st fb)) tcs w) = calls w"
  "engine (fold (\<lambda>tc. set_state (setTestStatus (tc_id tc) st fb)) tcs w) = engine w"
  by (induction tcs arbitrary: w) simp_all

lemma failAll_frame [simp]:
  "calls (failAll tcs w) = calls w" "engine (failAll tcs w) = engine w"
  by (simp_all add: failAll_def)

lemma checkCode_snd:
  "snd (checkCode gw re src w) =
     (case fst (checkCode_loop gw re src (activeLanguage (store w)) (currentProblem (store w))
                  (testCases (store w)) w) of
        None \<Rightarrow> snd (checkCode_loop gw re src (activeLanguage (store w)) (currentProblem (store w))
                  (testCases (store w)) w)
      | Some e \<Rightarrow> failAll (testCases (store w))
                   (snd (checkCode_loop gw re src (activeLanguage (store w))
                      (currentProblem (store w)) (testCases (store w)) w)))"
  by (simp add: checkCode_def Let_def split: prod.splits option.splits)

lemma checkCode_fst [simp]: "fst (checkCode gw re src w) = None"
  by (simp add: checkCode_def Let_def split: prod.splits option.splits)

lemma checkCode_calls:
  "calls (snd (checkCode gw re src w)) =
     calls (snd (checkCode_loop gw re src (activeLanguage (store w)) (currentProblem (store w))
                   (testCases (store w)) w))"
  by (simp add: checkCode_snd split: option.splits)

lemma case_checkCode:
  "(case checkCode gw re src w of (x, w3) \<Rightarrow> (case x of None \<Rightarrow> B w3 | Some e \<Rightarrow> A e w3)) =
   B (snd (checkCode gw re src w))"
  using checkCode_fst [of gw re src w] by (cases "checkCode gw re src w") auto

subsection \<open>Store actions as overwrites\<close>

lemma overwrite_id [simp]: "tc_id (overwrite sf r t) = tc_id t"
  by (simp add: overwrite_def split: option.splits)

lemma overwrite_comp:
  "overwrite sf2 r2 (overwrite sf1 r1 t) =
     overwrite (case sf2 of None \<Rightarrow> sf1 | Some x \<Rightarrow> Some x)
       (case r2 of None \<Rightarrow> r1 | Some x \<Rightarrow> Some x) t"
  by (simp add: overwrite_def split: option.splits)

lemma overwriteById_comp:
  "overwriteById f2 g2 (overwriteById f1 g1 s) =
     overwriteById (\<lambda>j. case f2 j of None \<Rightarrow> f1 j | Some x \<Rightarrow> Some x)
       (\<lambda>j. case g2 j of None \<Rightarrow> g1 j | Some x \<Rightarrow> Some x) s"
  by (simp add: overwriteById_def overwrite_comp comp_def)

lemma overwriteById_idem:
  "overwriteById f g (overwriteById f g s) = overwriteById f g s"
proof -
  have "(\<lambda>j. case f j of None \<Rightarrow> f j | Some x \<Rightarrow> Some x) = f"
    by (auto simp: fun_eq_iff split: option.splits)
  moreover have "(\<lambda>j. case g j of None \<Rightarrow> g j | Some x \<Rightarrow> Some x) = g"
    by (auto simp: fun_eq_iff split: option.splits)
  ultimately show ?thesis by (simp add: overwriteById_comp)
qed

lemma setTestStatus_overwrite:
  "setTestStatus i st fb s =
     overwriteById (\<lambda>j. if j = i then Some (st, fb) else None) (\<lambda>j. None) s"
  by (simp add: setTestStatus_def overwriteById_def overwrite_def)

lemma setResults_overwrite:
  "setResults i r s = overwriteById (\<lambda>j. None) (\<lambda>j. if j = i then Some r else None) s"
  by (simp add: setResults_def overwriteById_def overwrite_def)

lemma overwriteById_none: "overwriteById (\<lambda>j. None) (\<lambda>j. None) s = s"
  by (simp add: overwriteById_def overwrite_def)

lemma overwriteById_same [simp]: "sameSubmission s (overwriteById f g s)"
  by (auto simp: sameSubmission_def overwriteById_def overwrite_def static_def
      split: option.splits)

lemma static_fields:
  "static a = static b \<Longrightarrow>
   tc_id a = tc_id b \<and> description a = description b \<and> stdin a = stdin b
   \<and> expectedOutput a = expectedOutput b"
  by (simp add: static_def)

lemma codeToRun_static:
  "static a = static b \<Longrightarrow> codeToRun re prob lang a src = codeToRun re prob lang b src"
  by (simp add: codeToRun_def static_def cong: option.case_cong if_cong)

lemma stdinOf_static: "static a = static b \<Longrightarrow> stdinOf a = stdinOf b"
  by (simp add: stdinOf_def static_def)

lemma failAll_store:
  "store (failAll tcs w) =
     overwriteById (\<lambda>j. if j \<in> tc_id ` set tcs then Some (Fail, Some unexpectedError) else None)
       (\<lambda>j. None) (store w)"
  unfolding failAll_def
proof (induction tcs arbitrary: w)
  case Nil
  show ?case by (simp add: overwriteById_none)
next
  case (Cons tc rest)
  have h: "(\<lambda>j. case if j \<in> tc_id ` set rest then Some (Fail, Some unexpectedError) else None of
              None \<Rightarrow> if j = tc_id tc then Some (Fail, Some unexpectedError) else None
            | Some x \<Rightarrow> Some x) =
        (\<lambda>j. if j = tc_id tc \<or> j \<in> tc_id ` set rest
              then Some (Fail, Some unexpectedError) else None)"
    by (auto simp: fun_eq_iff)
  show ?case
    by (simp add: Cons.IH) (simp add: setTestStatus_overwrite overwriteById_comp h)
qed

lemma checkCode_same:
  "sameSubmission (store w) (store (snd (checkCode gw re src w)))"
proof -
  let ?loop = "checkCode_loop gw re src (activeLanguage (store w)) (currentProblem (store w))
                 (testCases (store w)) w"
  have l: "sameSubmission (store w) (store (snd ?loop))"
    by (rule checkCode_loop_same)
  show ?thesis
  proof (cases "fst ?loop")
    case None
    then have "snd (checkCode gw re src w) = snd ?loop"
      by (cases ?loop) (simp add: checkCode_def Let_def)
    with l show ?thesis by simp
  next
    case (Some e)
    then have "snd (checkCode gw re src w) = failAll (testCases (store w)) (snd ?loop)"
      by (cases ?loop) (simp add: checkCode_def Let_def)
    with sameSubmission_trans [OF l overwriteById_same] show ?thesis
      by (simp add: failAll_store)
  qed
qed

section \<open>Properties of the classification\<close>

text \<open>
  C6. A completed result with exit code 0 passes when the expected output is absent or
  empty; otherwise it passes exactly when the trimmed standard output equals the trimmed
  expected output (equality of the code units), and a mismatch fails with the expected
  output and the received standard output in the feedback.
\<close>

theorem classify_clean_exit:
  "classify (Complete 0 out err t) None = (Pass, None) \<and>
   classify (Complete 0 out err t) (Some []) = (Pass, None) \<and>
   classify (Complete 0 out err t) (Some (c # cs)) =
     (if trim out = trim (c # cs) then (Pass, None)
      else (Fail, Some \<lparr>message = S ''Your output didn't match what we expected.'',
                       error = None, expected = Some (c # cs), received = Some out\<rparr>))"
  by (simp add: feedbackOf_def)

theorem classify_clean_exit_witness:
  "classify (Complete 0 (S '' 5 '') [] []) (Some (S ''5'')) = (Pass, None)
   \<and> classify (Complete 0 (S ''5'') [] []) (Some (S ''6'')) =
       (Fail, Some \<lparr>message = S ''Your output didn't match what we expected.'',
                    error = None, expected = Some (S ''6''), received = Some (S ''5'')\<rparr>)"
proof -
  have a: "S ''5'' = 53 # []" "S ''6'' = 54 # []" by (simp_all add: S_def)
  have b: "trim (S '' 5 '') = trim (53 # [])" "trim (S ''5'') \<noteq> trim (54 # [])"
    by (simp_all add: trim_def isWhiteSpace_def S_def)
  from classify_clean_exit [of "S '' 5 ''" "[]" "[]" 53 "[]"]
    classify_clean_exit [of "S ''5''" "[]" "[]" 54 "[]"] a b
  show ?thesis by simp
qed

text \<open>
  C7. A completed result with a non-zero exit code fails, whatever the expected output,
  and the feedback carries the combined terminal transcript.
\<close>

theorem classify_nonzero_exit:
  "ec \<noteq> 0 \<Longrightarrow>
   classify (Complete ec out err t) expectedOut =
     (Fail, Some \<lparr>message = S ''Your program had an error.'', error = Some t,
                  expected = None, received = None\<rparr>)"
  by (simp add: feedbackOf_def)

theorem classify_nonzero_exit_witness:
  "(2::int) \<noteq> 0 \<and>
   classify (Complete 2 (S ''5'') [] (S ''5 boom'')) (Some (S ''5'')) =
     (Fail, Some \<lparr>message = S ''Your program had an error.'', error = Some (S ''5 boom''),
                  expected = None, received = None\<rparr>)"
  using classify_nonzero_exit [of 2 "S ''5''" "[]" "S ''5 boom''" "Some (S ''5'')"] by simp

lemma classify_settled: "settled (fst (classify r eo))"
  by (cases r) (simp_all add: settled_def)

section \<open>Properties of the executor\<close>

text \<open>
  C2. The executor that \<^verbatim>\<open>checkCode\<close> uses issues the run call of a compiled language
  without the standard input it was given: with the input \<^verbatim>\<open>5\n\<close> and a compile call
  that completes with exit code 0, both calls go out with no standard input. The executor
  of the step-by-step guide passes the input to the run call, but issues no run call
  after a compile call that crashed.
\<close>

theorem executor_run_call_without_stdin:
  "map fst (calls (snd (getHeadlessExecutor cleanExitEngine clangpp (S ''x'') (S ''5'' @ NL)
                 (startWorld emptyStore)))) =
     [\<lparr>runtime = clangpp, source = compileMarker @ S ''x'', call_stdin = None\<rparr>,
      \<lparr>runtime = clangpp, source = runMarker @ S ''x'', call_stdin = None\<rparr>]
   \<and> map fst (calls (snd (getHeadlessExecutor_runElement cleanExitEngine clangpp (S ''x'')
                 (S ''5'' @ NL) (startWorld emptyStore)))) =
     [\<lparr>runtime = clangpp, source = compileMarker @ S ''x'', call_stdin = Some []\<rparr>,
      \<lparr>runtime = clangpp, source = runMarker @ S ''x'', call_stdin = Some (S ''5'' @ NL)\<rparr>]
   \<and> map fst (calls (snd (getHeadlessExecutor_runElement crashingEngine clangpp (S ''x'')
                 (S ''5'' @ NL) (startWorld emptyStore)))) =
     [\<lparr>runtime = clangpp, source = compileMarker @ S ''x'', call_stdin = Some []\<rparr>]"
  by (simp add: getHeadlessExecutor_def getHeadlessExecutor_runElement_def headlessRunCode_def
      cleanExitEngine_def crashingEngine_def startWorld_def)

lemma compile_is_not_run: "isCompileCall c \<Longrightarrow> \<not> isRunCall c"
proof
  assume a: "isCompileCall c" and b: "isRunCall c"
  have "take (length compileMarker) (source c) ! 3 = source c ! 3"
    by (rule nth_take) (simp add: compileMarker_def S_def NL_def)
  moreover have "take (length runMarker) (source c) ! 3 = source c ! 3"
    by (rule nth_take) (simp add: runMarker_def S_def NL_def)
  ultimately have "compileMarker ! 3 = runMarker ! 3"
    using a b by (simp add: isCompileCall_def isRunCall_def)
  then show False
    by (simp add: compileMarker_def runMarker_def S_def NL_def)
qed

lemma executor_compiled:
  assumes "needsCompilation l"
  shows "\<exists>more. calls (snd (getHeadlessExecutor gw l src sin w)) =
            calls w @ (\<lparr>runtime = l, source = compileMarker @ src, call_stdin = None\<rparr>,
                       fst (gw \<lparr>runtime = l, source = compileMarker @ src, call_stdin = None\<rparr> (engine w)))
                      # more
          \<and> (failedCompile (fst (gw \<lparr>runtime = l, source = compileMarker @ src, call_stdin = None\<rparr>
                                  (engine w))) \<longrightarrow>
               more = [] \<and>
               fst (getHeadlessExecutor gw l src sin w) =
                 fst (gw \<lparr>runtime = l, source = compileMarker @ src, call_stdin = None\<rparr> (engine w)))"
  using assms
  by (cases "fst (gw \<lparr>runtime = l, source = compileMarker @ src, call_stdin = None\<rparr> (engine w))"
        rule: failedCompile.cases)
     (simp_all add: getHeadlessExecutor_def headlessRunCode_eq)

lemma checkCode_loop_compile_fail:
  assumes nc: "needsCompilation lang"
  shows "(\<forall>x\<in>set (drop (length (calls w)) (calls (snd (checkCode_loop gw re src lang prob tcs w)))).
            isCompileCall (fst x) \<longrightarrow> failedCompile (snd x)) \<Longrightarrow>
         (\<forall>t\<in>set (testCases (store w)). tc_id t \<in> D \<longrightarrow> programError t) \<Longrightarrow>
         fst (checkCode_loop gw re src lang prob tcs w) = None
       \<and> (\<forall>t\<in>set (testCases (store (snd (checkCode_loop gw re src lang prob tcs w)))).
            tc_id t \<in> D \<union> tc_id ` set tcs \<longrightarrow> programError t)
       \<and> (\<forall>x\<in>set (drop (length (calls w)) (calls (snd (checkCode_loop gw re src lang prob tcs w)))).
            isCompileCall (fst x))"
proof (induction tcs arbitrary: w D)
  case Nil
  then show ?case by simp
next
  case (Cons tc rest)
  let ?w1 = "set_state (setTestStatus (tc_id tc) Checking None) w"
  let ?src = "codeToRun re prob lang tc src"
  let ?ex = "getHeadlessExecutor gw lang ?src (stdinOf tc) ?w1"
  let ?c = "\<lparr>runtime = lang, source = compileMarker @ ?src, call_stdin = None\<rparr>"
  let ?r0 = "fst (gw ?c (engine w))"
  let ?L = "checkCode_loop gw re src lang prob (tc # rest) w"
  obtain r w2 where ex: "?ex = (r, w2)" by (cases ?ex)
  from executor_compiled [OF nc, of gw ?src "stdinOf tc" ?w1]
  obtain more where c2: "calls w2 = calls w @ (?c, ?r0) # more"
    and sc: "failedCompile ?r0 \<longrightarrow> more = [] \<and> r = ?r0"
    by (auto simp: ex)
  have s2: "store w2 = store ?w1"
    using executor_store [of gw lang ?src "stdinOf tc" ?w1] by (simp add: ex)
  have mem: "(?c, ?r0) \<in> set (drop (length (calls w)) (calls (snd ?L)))"
  proof (cases r)
    case (Inl e)
    then have "?L = (Some e, w2)" using ex by (simp add: Let_def)
    then show ?thesis using c2 by simp
  next
    case (Inr res)
    define v where "v = classify res (expectedOutput tc)"
    let ?w4 = "set_state (setTestStatus (tc_id tc) (fst v) (snd v))
                 (set_state (setResults (tc_id tc) res) w2)"
    have st: "?L = checkCode_loop gw re src lang prob rest ?w4"
      using ex Inr by (simp add: Let_def v_def)
    from checkCode_loop_calls [of gw re src lang prob rest ?w4]
    obtain new where "calls (snd (checkCode_loop gw re src lang prob rest ?w4)) = calls ?w4 @ new"
      by blast
    then show ?thesis unfolding st using c2 by simp
  qed
  have cc: "isCompileCall ?c" by (simp add: isCompileCall_def)
  from Cons.prems(1) mem cc have f: "failedCompile ?r0" by force
  with sc have more: "more = []" and r: "r = ?r0" by auto
  from f obtain ec out err t where r0: "?r0 = Inr (Complete ec out err t)" "ec \<noteq> 0"
    by (cases ?r0 rule: failedCompile.cases) auto
  define v where "v = classify (Complete ec out err t) (expectedOutput tc)"
  have v: "fst v = Fail" "map_option message (snd v) = Some (S ''Your program had an error.'')"
    using r0(2) by (simp_all add: v_def feedbackOf_def)
  let ?w4 = "set_state (setTestStatus (tc_id tc) (fst v) (snd v))
                 (set_state (setResults (tc_id tc) (Complete ec out err t)) w2)"
  have step: "?L = checkCode_loop gw re src lang prob rest ?w4"
    using ex r r0 by (simp add: Let_def v_def)
  have inv: "\<forall>t\<in>set (testCases (store ?w4)). tc_id t \<in> insert (tc_id tc) D \<longrightarrow> programError t"
    using Cons.prems(2) v
    by (auto simp: s2 setTestStatus_def setResults_def programError_def)
  have c4: "calls ?w4 = calls w @ [(?c, ?r0)]"
    using c2 more by simp
  from checkCode_loop_calls [of gw re src lang prob rest ?w4]
  obtain new where new: "calls (snd (checkCode_loop gw re src lang prob rest ?w4)) = calls ?w4 @ new"
    by blast
  have d4: "drop (length (calls ?w4)) (calls (snd (checkCode_loop gw re src lang prob rest ?w4))) = new"
    unfolding new by simp
  have d0: "drop (length (calls w)) (calls (snd ?L)) = (?c, ?r0) # new"
    unfolding step new c4 by simp
  have h: "\<forall>x\<in>set (drop (length (calls ?w4))
                (calls (snd (checkCode_loop gw re src lang prob rest ?w4)))).
             isCompileCall (fst x) \<longrightarrow> failedCompile (snd x)"
    using Cons.prems(1) unfolding d0 d4 by simp
  from Cons.IH [OF h inv]
  have i1: "fst (checkCode_loop gw re src lang prob rest ?w4) = None"
    and i2: "\<forall>t\<in>set (testCases (store (snd (checkCode_loop gw re src lang prob rest ?w4)))).
            tc_id t \<in> insert (tc_id tc) D \<union> tc_id ` set rest \<longrightarrow> programError t"
    and i3: "\<forall>x\<in>set new. isCompileCall (fst x)"
    unfolding d4 by blast+
  have "\<forall>x\<in>set (drop (length (calls w)) (calls (snd ?L))). isCompileCall (fst x)"
    unfolding d0 using i3 cc by simp
  moreover have "D \<union> tc_id ` set (tc # rest) = insert (tc_id tc) D \<union> tc_id ` set rest"
    by auto
  moreover have "fst ?L = None" unfolding step by (rule i1)
  moreover have "\<forall>t\<in>set (testCases (store (snd ?L))).
            tc_id t \<in> insert (tc_id tc) D \<union> tc_id ` set rest \<longrightarrow> programError t"
    unfolding step by (rule i2)
  ultimately show ?case by simp
qed

text \<open>
  C1. A compile call has failed when its result is completed with a non-zero exit code.
  When the compile call of the executor of a compiled language has failed, the executor
  returns the result of that call, and that call is the only one it issues. A check in a
  compiled language goes through the executor once per test case, so it issues one
  compile call per test case: when every compile call that the check has issued has
  failed, every test case ends failed with the same message and none of the calls of the
  check is in run mode. When the compile call of \<^verbatim>\<open>checkCppCode\<close> has failed, every test
  case ends failed with one and the same feedback, the compilation failure with the
  error output of the compiler, and the compile call is the only call issued; this holds
  for \<^verbatim>\<open>checkCppCode\<close> of both listings, and no error leaves the one of the first.
\<close>

theorem compile_failure_short_circuit:
  "(needsCompilation language \<and>
    failedCompile (fst (gw \<lparr>runtime = language, source = compileMarker @ src, call_stdin = None\<rparr>
                          (engine w))) \<longrightarrow>
      fst (getHeadlessExecutor gw language src stdin_arg w) =
        fst (gw \<lparr>runtime = language, source = compileMarker @ src, call_stdin = None\<rparr> (engine w))
      \<and> map fst (drop (length (calls w))
                   (calls (snd (getHeadlessExecutor gw language src stdin_arg w)))) =
          [\<lparr>runtime = language, source = compileMarker @ src, call_stdin = None\<rparr>])
   \<and> (needsCompilation (activeLanguage (store w)) \<and>
      (\<forall>x\<in>set (drop (length (calls w)) (calls (snd (checkCode gw re src w)))).
          isCompileCall (fst x) \<longrightarrow> failedCompile (snd x)) \<longrightarrow>
      (\<forall>tc\<in>set (testCases (store (snd (checkCode gw re src w)))).
          status tc = Fail \<and>
          map_option message (feedback tc) = Some (S ''Your program had an error.''))
      \<and> filter isRunCall
           (map fst (drop (length (calls w)) (calls (snd (checkCode gw re src w))))) = [])
   \<and> (fst (gw \<lparr>runtime = clangpp, source = compileMarker @ src, call_stdin = None\<rparr> (engine w))
         = Inr (Complete ec out err t) \<and> ec \<noteq> 0 \<longrightarrow>
      (\<forall>tc\<in>set (testCases (store (snd (checkCppCode gw src w)))).
          status tc = Fail \<and>
          feedback tc = Some \<lparr>message = S ''Compilation failed.'',
                               error = Some (if err \<noteq> [] then err else t),
                               expected = None, received = None\<rparr>)
      \<and> map fst (drop (length (calls w)) (calls (snd (checkCppCode gw src w)))) =
          [\<lparr>runtime = clangpp, source = compileMarker @ src, call_stdin = None\<rparr>])
   \<and> (fst (gw \<lparr>runtime = clangpp, source = compileMarker @ src, call_stdin = Some []\<rparr> (engine w))
         = Inr (Complete ec out err t) \<and> ec \<noteq> 0 \<longrightarrow>
      fst (checkCppCode_runElement gw src w) = None
      \<and> (\<forall>tc\<in>set (testCases (store (snd (checkCppCode_runElement gw src w)))).
          status tc = Fail \<and>
          feedback tc = Some \<lparr>message = S ''Compilation failed.'',
                               error = Some (if err \<noteq> [] then err else t),
                               expected = None, received = None\<rparr>)
      \<and> map fst (drop (length (calls w)) (calls (snd (checkCppCode_runElement gw src w)))) =
          [\<lparr>runtime = clangpp, source = compileMarker @ src, call_stdin = Some []\<rparr>])"
proof -
  let ?tcs = "testCases (store w)"
  let ?fb = "\<lparr>message = S ''Compilation failed.'', error = Some (if err \<noteq> [] then err else t),
              expected = None, received = None\<rparr>"
  have fb: "compilationFailed err t = ?fb"
    by (simp add: compilationFailed_def feedbackOf_def)
  have p1: "fst (getHeadlessExecutor gw language src stdin_arg w) =
        fst (gw \<lparr>runtime = language, source = compileMarker @ src, call_stdin = None\<rparr> (engine w))
      \<and> map fst (drop (length (calls w))
                   (calls (snd (getHeadlessExecutor gw language src stdin_arg w)))) =
          [\<lparr>runtime = language, source = compileMarker @ src, call_stdin = None\<rparr>]"
    if "needsCompilation language"
      and "failedCompile (fst (gw \<lparr>runtime = language, source = compileMarker @ src,
                                   call_stdin = None\<rparr> (engine w)))"
    using executor_compiled [OF that(1), of gw src stdin_arg w] that(2) by auto
  have p2: "(\<forall>tc\<in>set (testCases (store (snd (checkCode gw re src w)))).
          status tc = Fail \<and>
          map_option message (feedback tc) = Some (S ''Your program had an error.''))
      \<and> filter isRunCall
           (map fst (drop (length (calls w)) (calls (snd (checkCode gw re src w))))) = []"
    if nc: "needsCompilation (activeLanguage (store w))"
      and h: "\<forall>x\<in>set (drop (length (calls w)) (calls (snd (checkCode gw re src w)))).
          isCompileCall (fst x) \<longrightarrow> failedCompile (snd x)"
  proof -
    let ?loop = "checkCode_loop gw re src (activeLanguage (store w)) (currentProblem (store w)) ?tcs w"
    have h': "\<forall>x\<in>set (drop (length (calls w)) (calls (snd ?loop))).
          isCompileCall (fst x) \<longrightarrow> failedCompile (snd x)"
      using h by (simp only: checkCode_calls)
    have "\<forall>t\<in>set ?tcs. tc_id t \<in> {} \<longrightarrow> programError t" by simp
    from checkCode_loop_compile_fail [OF nc h' this]
    have none: "fst ?loop = None"
      and all: "\<forall>t\<in>set (testCases (store (snd ?loop))). tc_id t \<in> tc_id ` set ?tcs \<longrightarrow> programError t"
      and new: "\<forall>x\<in>set (drop (length (calls w)) (calls (snd ?loop))). isCompileCall (fst x)"
      by auto
    have res: "snd (checkCode gw re src w) = snd ?loop"
      using none by (simp add: checkCode_snd)
    have ids: "map tc_id (testCases (store (snd ?loop))) = map tc_id ?tcs"
      by (rule sameSubmission_ids [OF checkCode_loop_same])
    have "programError t" if "t \<in> set (testCases (store (snd ?loop)))" for t
    proof -
      from that have "tc_id t \<in> set (map tc_id (testCases (store (snd ?loop))))" by simp
      with ids have "tc_id t \<in> tc_id ` set ?tcs" by simp
      with all that show ?thesis by blast
    qed
    then have a: "\<forall>tc\<in>set (testCases (store (snd (checkCode gw re src w)))).
             status tc = Fail \<and>
             map_option message (feedback tc) = Some (S ''Your program had an error.'')"
      by (simp add: res programError_def)
    have "filter isRunCall (map fst (drop (length (calls w)) (calls (snd ?loop)))) = []"
      using new by (auto simp: filter_empty_conv dest: compile_is_not_run)
    then show ?thesis using a by (simp add: res)
  qed
  have p3: "(\<forall>tc\<in>set (testCases (store (snd (checkCppCode gw src w)))).
          status tc = Fail \<and> feedback tc = Some ?fb)
      \<and> map fst (drop (length (calls w)) (calls (snd (checkCppCode gw src w)))) =
          [\<lparr>runtime = clangpp, source = compileMarker @ src, call_stdin = None\<rparr>]"
    if r: "fst (gw \<lparr>runtime = clangpp, source = compileMarker @ src, call_stdin = None\<rparr> (engine w))
         = Inr (Complete ec out err t)" "ec \<noteq> 0"
  proof -
    let ?c = "\<lparr>runtime = clangpp, source = compileMarker @ src, call_stdin = None\<rparr>"
    let ?w1 = "w\<lparr>engine := snd (gw ?c (engine w)),
                  calls := calls w @ [(?c, Inr (Complete ec out err t))]\<rparr>"
    have body: "checkCppCode gw src w =
        (None, fold (\<lambda>testCase. set_state (setTestStatus (tc_id testCase) Fail (Some ?fb))) ?tcs ?w1)"
      using r by (simp add: checkCppCode_def checkCppCode_body_def headlessRunCode_eq Let_def fb)
    show ?thesis by (auto simp: body fold_setTestStatus)
  qed
  have p4: "fst (checkCppCode_runElement gw src w) = None
      \<and> (\<forall>tc\<in>set (testCases (store (snd (checkCppCode_runElement gw src w)))).
          status tc = Fail \<and> feedback tc = Some ?fb)
      \<and> map fst (drop (length (calls w)) (calls (snd (checkCppCode_runElement gw src w)))) =
          [\<lparr>runtime = clangpp, source = compileMarker @ src, call_stdin = Some []\<rparr>]"
    if r: "fst (gw \<lparr>runtime = clangpp, source = compileMarker @ src, call_stdin = Some []\<rparr> (engine w))
         = Inr (Complete ec out err t)" "ec \<noteq> 0"
  proof -
    let ?c = "\<lparr>runtime = clangpp, source = compileMarker @ src, call_stdin = Some []\<rparr>"
    let ?w1 = "w\<lparr>engine := snd (gw ?c (engine w)),
                  calls := calls w @ [(?c, Inr (Complete ec out err t))]\<rparr>"
    have body: "checkCppCode_runElement gw src w =
        (None, fold (\<lambda>testCase. set_state (setTestStatus (tc_id testCase) Fail (Some ?fb))) ?tcs ?w1)"
      using r by (simp add: checkCppCode_runElement_def headlessRunCode_eq Let_def fb)
    show ?thesis by (auto simp: body fold_setTestStatus)
  qed
  from p1 p2 p3 p4 show ?thesis by blast
qed

theorem compile_failure_short_circuit_witness:
  "needsCompilation clangpp
   \<and> activeLanguage (store (startWorld twoCases)) = clangpp
   \<and> fst (rejectingCompiler \<lparr>runtime = clangpp, source = compileMarker @ S ''c'', call_stdin = None\<rparr>
            (engine (startWorld twoCases))) = Inr (Complete 1 [] (S ''e'') (S ''t''))
   \<and> fst (rejectingCompiler \<lparr>runtime = clangpp, source = compileMarker @ S ''c'', call_stdin = Some []\<rparr>
            (engine (startWorld twoCases))) = Inr (Complete 1 [] (S ''e'') (S ''t''))
   \<and> fst (getHeadlessExecutor rejectingCompiler clangpp (S ''c'') (S ''5'' @ NL)
            (startWorld twoCases)) = Inr (Complete 1 [] (S ''e'') (S ''t''))
   \<and> map fst (drop (length (calls (startWorld twoCases)))
        (calls (snd (getHeadlessExecutor rejectingCompiler clangpp (S ''c'') (S ''5'' @ NL)
           (startWorld twoCases))))) =
       [\<lparr>runtime = clangpp, source = compileMarker @ S ''c'', call_stdin = None\<rparr>]
   \<and> drop (length (calls (startWorld twoCases)))
        (calls (snd (checkCode rejectingCompiler noRegexp (S ''c'') (startWorld twoCases)))) =
       [(\<lparr>runtime = clangpp, source = compileMarker @ S ''c'', call_stdin = None\<rparr>,
         Inr (Complete 1 [] (S ''e'') (S ''t''))),
        (\<lparr>runtime = clangpp, source = compileMarker @ S ''c'', call_stdin = None\<rparr>,
         Inr (Complete 1 [] (S ''e'') (S ''t'')))]
   \<and> map status (testCases (store (snd (checkCode rejectingCompiler noRegexp (S ''c'')
         (startWorld twoCases))))) = [Fail, Fail]
   \<and> map (map_option message) (map feedback (testCases (store (snd (checkCode rejectingCompiler
         noRegexp (S ''c'') (startWorld twoCases))))))
       = [Some (S ''Your program had an error.''), Some (S ''Your program had an error.'')]
   \<and> filter isRunCall (map fst (drop (length (calls (startWorld twoCases)))
        (calls (snd (checkCode rejectingCompiler noRegexp (S ''c'') (startWorld twoCases)))))) = []
   \<and> map status (testCases (store (snd (checkCppCode rejectingCompiler (S ''c'')
         (startWorld twoCases))))) = [Fail, Fail]
   \<and> map feedback (testCases (store (snd (checkCppCode rejectingCompiler (S ''c'')
         (startWorld twoCases))))) =
       [Some \<lparr>message = S ''Compilation failed.'', error = Some (S ''e''), expected = None,
               received = None\<rparr>,
        Some \<lparr>message = S ''Compilation failed.'', error = Some (S ''e''), expected = None,
               received = None\<rparr>]
   \<and> map fst (drop (length (calls (startWorld twoCases)))
        (calls (snd (checkCppCode rejectingCompiler (S ''c'') (startWorld twoCases))))) =
       [\<lparr>runtime = clangpp, source = compileMarker @ S ''c'', call_stdin = None\<rparr>]
   \<and> fst (checkCppCode_runElement rejectingCompiler (S ''c'') (startWorld twoCases)) = None
   \<and> map status (testCases (store (snd (checkCppCode_runElement rejectingCompiler (S ''c'')
         (startWorld twoCases))))) = [Fail, Fail]
   \<and> map feedback (testCases (store (snd (checkCppCode_runElement rejectingCompiler (S ''c'')
         (startWorld twoCases))))) =
       [Some \<lparr>message = S ''Compilation failed.'', error = Some (S ''e''), expected = None,
               received = None\<rparr>,
        Some \<lparr>message = S ''Compilation failed.'', error = Some (S ''e''), expected = None,
               received = None\<rparr>]
   \<and> map fst (drop (length (calls (startWorld twoCases)))
        (calls (snd (checkCppCode_runElement rejectingCompiler (S ''c'') (startWorld twoCases))))) =
       [\<lparr>runtime = clangpp, source = compileMarker @ S ''c'', call_stdin = Some []\<rparr>]"
proof -
  let ?w = "startWorld twoCases"
  let ?c = "\<lparr>runtime = clangpp, source = compileMarker @ S ''c'', call_stdin = None\<rparr>"
  let ?c' = "\<lparr>runtime = clangpp, source = compileMarker @ S ''c'', call_stdin = Some []\<rparr>"
  let ?res = "Inr (Complete 1 [] (S ''e'') (S ''t'')) :: js_error + RunResult"
  let ?fb = "\<lparr>message = S ''Compilation failed.'', error = Some (S ''e''), expected = None,
               received = None\<rparr>"
  let ?e = "snd (getHeadlessExecutor rejectingCompiler clangpp (S ''c'') (S ''5'' @ NL) ?w)"
  let ?r = "snd (checkCode rejectingCompiler noRegexp (S ''c'') ?w)"
  let ?q = "snd (checkCppCode rejectingCompiler (S ''c'') ?w)"
  let ?p = "snd (checkCppCode_runElement rejectingCompiler (S ''c'') ?w)"
  have n: "needsCompilation clangpp" by simp
  have al: "activeLanguage (store ?w) = clangpp" by (simp add: startWorld_def twoCases_def)
  have g: "fst (rejectingCompiler ?c (engine ?w)) = ?res"
    by (simp add: rejectingCompiler_def)
  have g': "fst (rejectingCompiler ?c' (engine ?w)) = ?res"
    by (simp add: rejectingCompiler_def)
  have log: "drop (length (calls ?w)) (calls ?r) = [(?c, ?res), (?c, ?res)]"
    by (simp add: run_defs twoCases_def rejectingCompiler_def noRegexp_def)
  have h: "\<forall>x\<in>set (drop (length (calls ?w)) (calls ?r)).
             isCompileCall (fst x) \<longrightarrow> failedCompile (snd x)"
    by (simp add: log)
  have l1: "length (testCases (store ?r)) = 2"
    by (simp add: run_defs twoCases_def rejectingCompiler_def noRegexp_def)
  have l3: "length (testCases (store ?q)) = 2"
    by (simp add: run_defs twoCases_def rejectingCompiler_def)
  have l4: "length (testCases (store ?p)) = 2"
    by (simp add: checkCppCode_runElement_def run_defs twoCases_def rejectingCompiler_def)
  have e: "(if S ''e'' \<noteq> [] then S ''e'' else S ''t'') = S ''e''"
    by (simp add: S_def)
  note t = compile_failure_short_circuit [where gw = rejectingCompiler and language = clangpp
      and src = "S ''c''" and stdin_arg = "S ''5'' @ NL" and w = ?w and re = noRegexp
      and ec = 1 and out = "[]" and err = "S ''e''" and t = "S ''t''", unfolded e]
  from t n g have x1: "fst (getHeadlessExecutor rejectingCompiler clangpp (S ''c'') (S ''5'' @ NL) ?w) = ?res"
    and x2: "map fst (drop (length (calls ?w)) (calls ?e)) = [?c]"
    by simp_all
  from t n al h have a: "\<forall>tc\<in>set (testCases (store ?r)). status tc = Fail \<and>
        map_option message (feedback tc) = Some (S ''Your program had an error.'')"
    and b: "filter isRunCall (map fst (drop (length (calls ?w)) (calls ?r))) = []"
    by simp_all
  from two_elements [OF l1 a] have a': "map status (testCases (store ?r)) = [Fail, Fail]"
    "map (map_option message) (map feedback (testCases (store ?r)))
       = [Some (S ''Your program had an error.''), Some (S ''Your program had an error.'')]"
    by auto
  from t g have c: "\<forall>tc\<in>set (testCases (store ?q)). status tc = Fail \<and> feedback tc = Some ?fb"
    and d: "map fst (drop (length (calls ?w)) (calls ?q)) = [?c]"
    by simp_all
  from two_elements [OF l3 c] have c': "map status (testCases (store ?q)) = [Fail, Fail]"
    "map feedback (testCases (store ?q)) = [Some ?fb, Some ?fb]"
    by auto
  from t g' have f0: "fst (checkCppCode_runElement rejectingCompiler (S ''c'') ?w) = None"
    and f: "\<forall>tc\<in>set (testCases (store ?p)). status tc = Fail \<and> feedback tc = Some ?fb"
    and k: "map fst (drop (length (calls ?w)) (calls ?p)) = [?c']"
    by simp_all
  from two_elements [OF l4 f] have f': "map status (testCases (store ?p)) = [Fail, Fail]"
    "map feedback (testCases (store ?p)) = [Some ?fb, Some ?fb]"
    by auto
  show ?thesis
    by (intro conjI) (fact n al g g' x1 x2 log a' b c' d f0 f' k)+
qed

section \<open>Properties of the sequencer\<close>

text \<open>
  The \<^verbatim>\<open>checkCode\<close> of the second listing has the \<^verbatim>\<open>catch\<close> block. No error leaves it; and
  when one of the gateway calls of a check has thrown, every test case of the store, the
  one in flight among them, ends failed with the message of the unexpected error.
\<close>

lemma checkCode_catches:
  "fst (checkCode gw re src w) = None \<and>
   ((\<exists>c e. (c, Inl e) \<in> set (drop (length (calls w)) (calls (snd (checkCode gw re src w))))) \<longrightarrow>
    (\<forall>tc \<in> set (testCases (store (snd (checkCode gw re src w)))).
       status tc = Fail \<and> feedback tc = Some unexpectedError))"
proof -
  let ?tcs = "testCases (store w)"
  let ?loop = "checkCode_loop gw re src (activeLanguage (store w)) (currentProblem (store w)) ?tcs w"
  obtain err w' where loop: "?loop = (err, w')" by (cases ?loop)
  from checkCode_loop_calls [of gw re src "activeLanguage (store w)" "currentProblem (store w)" ?tcs w]
  obtain new where new: "calls w' = calls w @ new" "(\<exists>c e. (c, Inl e) \<in> set new) \<longrightarrow> err \<noteq> None"
    by (auto simp: loop)
  have ids: "map tc_id (testCases (store w')) = map tc_id ?tcs"
    using sameSubmission_ids [OF checkCode_loop_same
        [of w gw re src "activeLanguage (store w)" "currentProblem (store w)" ?tcs] ]
    by (simp add: loop)
  show ?thesis
  proof (cases err)
    case None
    with loop new show ?thesis by (simp add: checkCode_def Let_def)
  next
    case (Some e)
    have "\<forall>t\<in>set (testCases (store w')). tc_id t \<in> tc_id ` set ?tcs"
    proof
      fix t assume "t \<in> set (testCases (store w'))"
      then have "tc_id t \<in> set (map tc_id (testCases (store w')))" by simp
      with ids show "tc_id t \<in> tc_id ` set ?tcs" by simp
    qed
    then have "\<forall>tc \<in> set (testCases (store (failAll ?tcs w'))).
       status tc = Fail \<and> feedback tc = Some unexpectedError"
      by (auto simp: failAll_def fold_setTestStatus)
    with Some loop show ?thesis by (simp add: checkCode_def Let_def)
  qed
qed

text \<open>
  C5. The \<^verbatim>\<open>checkCode\<close> of the first listing has \<^verbatim>\<open>try\<close> and \<^verbatim>\<open>finally\<close> and no \<^verbatim>\<open>catch\<close>. On
  two test cases and a gateway that throws, the error leaves \<^verbatim>\<open>checkCode\<close>: the one call
  issued is the call of the first test case, which stays checking with no feedback, and
  the second test case keeps its initial status. On the same input the \<^verbatim>\<open>checkCode\<close> of
  the second listing returns without an error and leaves both test cases failed with the
  message of the unexpected error.
\<close>

theorem checkCode_runElement_error_escapes:
  "fst (checkCode_runElement throwingEngine (S ''c'') (startWorld twoCases)) = Some (S ''boom'')
   \<and> map status (testCases (store (snd (checkCode_runElement throwingEngine (S ''c'')
                (startWorld twoCases))))) = [Checking, Idle]
   \<and> map feedback (testCases (store (snd (checkCode_runElement throwingEngine (S ''c'')
                (startWorld twoCases))))) = [None, None]
   \<and> map fst (calls (snd (checkCode_runElement throwingEngine (S ''c'') (startWorld twoCases)))) =
       [\<lparr>runtime = python, source = S ''c'', call_stdin = Some (S ''5'' @ NL)\<rparr>]
   \<and> fst (checkCode throwingEngine noRegexp (S ''c'') (startWorld twoCases)) = None
   \<and> map status (testCases (store (snd (checkCode throwingEngine noRegexp (S ''c'')
                (startWorld twoCases))))) = [Fail, Fail]
   \<and> map feedback (testCases (store (snd (checkCode throwingEngine noRegexp (S ''c'')
                (startWorld twoCases))))) = [Some unexpectedError, Some unexpectedError]"
  by (simp add: checkCode_runElement_def run_defs twoCases_def throwingEngine_def S_def)

lemma checkCode_loop_sim:
  assumes "engine w = engine v" and "map static tcs' = map static tcs"
  shows "\<exists>f g. store (snd (checkCode_loop gw re src lang prob tcs w)) = overwriteById f g (store w)
             \<and> store (snd (checkCode_loop gw re src lang prob tcs' v)) = overwriteById f g (store v)
             \<and> fst (checkCode_loop gw re src lang prob tcs w) =
                 fst (checkCode_loop gw re src lang prob tcs' v)"
  using assms
proof (induction tcs arbitrary: tcs' w v)
  case Nil
  then have "tcs' = []" by simp
  then show ?case
    using overwriteById_none [of "store w"] overwriteById_none [of "store v"]
    by (metis checkCode_loop.simps(1) fst_conv snd_conv)
next
  case (Cons tc rest)
  from Cons.prems(2) obtain tc' rest' where tcs': "tcs' = tc' # rest'"
    and st: "static tc' = static tc" and rest': "map static rest' = map static rest"
    by (cases tcs') auto
  from static_fields [OF st] have id: "tc_id tc' = tc_id tc" and eo: "expectedOutput tc' = expectedOutput tc"
    by simp_all
  let ?f1 = "\<lambda>j. if j = tc_id tc then Some (Checking, None) else None"
  let ?w1 = "set_state (setTestStatus (tc_id tc) Checking None) w"
  let ?v1 = "set_state (setTestStatus (tc_id tc) Checking None) v"
  let ?src = "codeToRun re prob lang tc src"
  let ?exw = "getHeadlessExecutor gw lang ?src (stdinOf tc) ?w1"
  let ?exv = "getHeadlessExecutor gw lang ?src (stdinOf tc) ?v1"
  have e1: "engine ?w1 = engine ?v1" using Cons.prems(1) by simp
  from executor_engine [OF e1, of gw lang ?src "stdinOf tc"]
  have same: "fst ?exw = fst ?exv" "engine (snd ?exw) = engine (snd ?exv)" by simp_all
  have sw: "store (snd ?exw) = setTestStatus (tc_id tc) Checking None (store w)"
    and sv: "store (snd ?exv) = setTestStatus (tc_id tc) Checking None (store v)"
    by simp_all
  have unf: "codeToRun re prob lang tc' src = ?src" "stdinOf tc' = stdinOf tc"
    using codeToRun_static [OF st] stdinOf_static [OF st] by simp_all
  show ?case
  proof (cases "fst ?exw")
    case (Inl e)
    have "checkCode_loop gw re src lang prob (tc # rest) w = (Some e, snd ?exw)"
      using Inl by (cases ?exw) (simp add: Let_def)
    moreover have "checkCode_loop gw re src lang prob tcs' v = (Some e, snd ?exv)"
      using Inl same(1) by (cases ?exv) (simp add: Let_def tcs' id unf)
    ultimately show ?thesis
      using sw sv by (auto simp: setTestStatus_overwrite)
  next
    case (Inr r)
    define vd where "vd = classify r (expectedOutput tc)"
    let ?w4 = "set_state (setTestStatus (tc_id tc) (fst vd) (snd vd))
                 (set_state (setResults (tc_id tc) r) (snd ?exw))"
    let ?v4 = "set_state (setTestStatus (tc_id tc) (fst vd) (snd vd))
                 (set_state (setResults (tc_id tc) r) (snd ?exv))"
    have lw: "checkCode_loop gw re src lang prob (tc # rest) w =
                checkCode_loop gw re src lang prob rest ?w4"
      using Inr by (cases ?exw) (simp add: Let_def vd_def)
    have lv: "checkCode_loop gw re src lang prob tcs' v =
                checkCode_loop gw re src lang prob rest' ?v4"
      using Inr same(1) by (cases ?exv) (simp add: Let_def vd_def tcs' id unf eo)
    have e4: "engine ?w4 = engine ?v4" using same(2) by simp
    from Cons.IH [OF e4 rest'] obtain f g where
      fg: "store (snd (checkCode_loop gw re src lang prob rest ?w4)) = overwriteById f g (store ?w4)"
        "store (snd (checkCode_loop gw re src lang prob rest' ?v4)) = overwriteById f g (store ?v4)"
        "fst (checkCode_loop gw re src lang prob rest ?w4) =
           fst (checkCode_loop gw re src lang prob rest' ?v4)"
      by blast
    have "\<exists>f' g'. store ?w4 = overwriteById f' g' (store w) \<and> store ?v4 = overwriteById f' g' (store v)"
      by (simp add: sw sv setTestStatus_overwrite setResults_overwrite overwriteById_comp) blast
    then obtain f' g' where
      "store ?w4 = overwriteById f' g' (store w)" "store ?v4 = overwriteById f' g' (store v)"
      by blast
    with fg show ?thesis
      unfolding lw lv by (simp add: overwriteById_comp) blast
  qed
qed

text \<open>
  C8. A second check with the same code, started on the store that the first check left
  and with the engine in the state in which the first check found it, leaves the store
  as the first check left it: every test case keeps its status, feedback and result.
\<close>

theorem checkCode_idempotent:
  "store (snd (checkCode gw re src ((snd (checkCode gw re src w))\<lparr>engine := engine w\<rparr>))) =
   store (snd (checkCode gw re src w))"
proof -
  define w1 where "w1 = snd (checkCode gw re src w)"
  define v where "v = w1\<lparr>engine := engine w\<rparr>"
  let ?lang = "activeLanguage (store w)" and ?prob = "currentProblem (store w)"
  let ?tcs = "testCases (store w)" and ?tcs1 = "testCases (store v)"
  let ?ff = "\<lambda>j. if j \<in> tc_id ` set ?tcs then Some (Fail, Some unexpectedError) else None"
  have sv: "store v = store w1" by (simp add: v_def)
  have same: "sameSubmission (store w) (store v)"
    unfolding sv w1_def by (rule checkCode_same)
  then have lang: "activeLanguage (store v) = ?lang" and prob: "currentProblem (store v) = ?prob"
    and st: "map static ?tcs1 = map static ?tcs"
    by (simp_all add: sameSubmission_def)
  have "set (map tc_id ?tcs1) = set (map tc_id ?tcs)"
    using sameSubmission_ids [OF same] by simp
  then have ids: "tc_id ` set ?tcs1 = tc_id ` set ?tcs" by simp
  let ?lw = "checkCode_loop gw re src ?lang ?prob ?tcs w"
  let ?lv = "checkCode_loop gw re src ?lang ?prob ?tcs1 v"
  have "engine w = engine v" by (simp add: v_def)
  from checkCode_loop_sim [OF this st, of gw re src ?lang ?prob]
  obtain f g where fg: "store (snd ?lw) = overwriteById f g (store w)"
    "store (snd ?lv) = overwriteById f g (store v)" "fst ?lw = fst ?lv"
    by blast
  have cw: "w1 = (case fst ?lw of None \<Rightarrow> snd ?lw | Some e \<Rightarrow> failAll ?tcs (snd ?lw))"
    unfolding w1_def by (rule checkCode_snd)
  have cv: "snd (checkCode gw re src v) =
      (case fst ?lv of None \<Rightarrow> snd ?lv | Some e \<Rightarrow> failAll ?tcs1 (snd ?lv))"
    using checkCode_snd [of gw re src v] by (simp only: lang prob)
  have "store (snd (checkCode gw re src v)) = store w1"
  proof (cases "fst ?lw")
    case None
    have r1: "store w1 = overwriteById f g (store w)"
      using None cw fg(1) by simp
    have "store (snd (checkCode gw re src v)) = overwriteById f g (store v)"
      using None fg(2,3) cv by simp
    also have "\<dots> = store w1"
      unfolding sv r1 by (rule overwriteById_idem)
    finally show ?thesis .
  next
    case (Some e)
    have r1: "store w1 = overwriteById ?ff (\<lambda>j. None) (overwriteById f g (store w))"
      using Some cw fg(1) by (simp add: failAll_store)
    have "store (snd (checkCode gw re src v)) =
        overwriteById ?ff (\<lambda>j. None) (overwriteById f g (store v))"
      using Some fg(2,3) cv by (simp add: failAll_store ids)
    also have "\<dots> = store w1"
      unfolding sv r1 overwriteById_comp [of ?ff "\<lambda>j. None" f g] by (rule overwriteById_idem)
    finally show ?thesis .
  qed
  then show ?thesis by (simp add: v_def w1_def)
qed

theorem checkCode_idempotent_witness:
  "map status (testCases (store (snd (checkCode cleanExitEngine noRegexp (S ''c'')
      ((snd (checkCode cleanExitEngine noRegexp (S ''c'') (startWorld twoCases)))
         \<lparr>engine := engine (startWorld twoCases)\<rparr>))))) = [Fail, Pass]
   \<and> map status (testCases (store (snd (checkCode cleanExitEngine noRegexp (S ''c'')
      (startWorld twoCases))))) = [Fail, Pass]"
proof -
  have "map status (testCases (store (snd (checkCode cleanExitEngine noRegexp (S ''c'')
      (startWorld twoCases))))) = [Fail, Pass]"
    by (simp add: run_defs submit_defs twoCases_def cleanExitEngine_def S_def)
  with checkCode_idempotent [of cleanExitEngine noRegexp "S ''c''" "startWorld twoCases"]
  show ?thesis by simp
qed

subsection \<open>The order of the status transitions\<close>

lemma inOrder_no_checking: "Checking \<notin> set ss \<Longrightarrow> inOrder ss"
  by (induction ss) auto

lemma inOrder_split:
  "\<forall>s\<in>set pre. settled s \<Longrightarrow> Checking \<notin> set (tl post) \<Longrightarrow> inOrder (pre @ post)"
proof (induction pre)
  case Nil
  then show ?case by (cases post) (auto intro: inOrder_no_checking)
next
  case (Cons a pre)
  then show ?case by simp
qed

lemma inOrder_index:
  "inOrder ss \<Longrightarrow> i < j \<Longrightarrow> j < length ss \<Longrightarrow> ss ! j = Checking \<Longrightarrow> settled (ss ! i)"
proof (induction ss arbitrary: i j)
  case Nil
  then show ?case by simp
next
  case (Cons s ss)
  from Cons.prems(2) obtain j' where j: "j = Suc j'" by (cases j) auto
  show ?case
  proof (cases "settled s")
    case True
    show ?thesis
    proof (cases i)
      case 0
      with True show ?thesis by simp
    next
      case (Suc i')
      with Cons.prems j True Cons.IH [of i' j'] show ?thesis by simp
    qed
  next
    case False
    with Cons.prems(1) have "Checking \<notin> set ss" by simp
    moreover from Cons.prems(3,4) j have "ss ! j' = Checking" "j' < length ss" by simp_all
    ultimately show ?thesis by (metis nth_mem)
  qed
qed

lemma inOrder_count: "inOrder ss \<Longrightarrow> length (filter (\<lambda>s. s = Checking) ss) \<le> 1"
proof (induction ss)
  case Nil
  then show ?case by simp
next
  case (Cons s ss)
  show ?case
  proof (cases "settled s")
    case True
    with Cons show ?thesis by (auto simp: settled_def)
  next
    case False
    with Cons.prems have "Checking \<notin> set ss" by simp
    then have "filter (\<lambda>s. s = Checking) ss = []"
      by (auto simp: filter_empty_conv)
    then show ?thesis by simp
  qed
qed

lemma inOrder_step:
  "\<forall>x\<in>set pre. settled x \<Longrightarrow> \<forall>x\<in>set post. x \<noteq> Checking \<Longrightarrow> inOrder (pre @ s # post)"
  by (rule inOrder_split) auto

lemma statuses_inOrder:
  "\<forall>t\<in>set pre. settled (status t) \<Longrightarrow> \<forall>t\<in>set (tl post). status t \<noteq> Checking \<Longrightarrow>
   inOrder (map status (pre @ post))"
proof -
  assume a: "\<forall>t\<in>set pre. settled (status t)" and b: "\<forall>t\<in>set (tl post). status t \<noteq> Checking"
  have "inOrder (map status pre @ map status post)"
  proof (rule inOrder_split)
    show "\<forall>s\<in>set (map status pre). settled s" using a by simp
    show "Checking \<notin> set (tl (map status post))"
      using b by (cases post) auto
  qed
  then show ?thesis by simp
qed

lemma settledFirst_append:
  "\<forall>x\<in>set pre. settled x \<Longrightarrow> settledFirst (pre @ ss) = settledFirst ss"
  by (induction pre) simp_all

lemma settledFirst_checking: "\<forall>x\<in>set ss. x = Checking \<Longrightarrow> settledFirst ss"
  by (cases ss) (simp_all add: list_all_iff settled_def)

lemma settledFirst_tl: "settledFirst (s # ss) \<Longrightarrow> settledFirst ss"
  by (cases "settled s") (auto simp: list_all_iff intro: settledFirst_checking)

lemma settledFirst_index:
  "settledFirst ss \<Longrightarrow>
   (\<forall>k<length ss. ss ! k \<noteq> Idle) \<and>
   (\<forall>i j. i < j \<and> j < length ss \<and> ss ! i = Checking \<longrightarrow> ss ! j = Checking)"
proof (induction ss)
  case Nil
  then show ?case by simp
next
  case (Cons s ss)
  show ?case
  proof (cases "settled s")
    case True
    with Cons.prems have "settledFirst ss" by simp
    from Cons.IH [OF this] have ih: "\<forall>k<length ss. ss ! k \<noteq> Idle"
      "\<forall>i j. i < j \<and> j < length ss \<and> ss ! i = Checking \<longrightarrow> ss ! j = Checking"
      by blast+
    have a: "\<forall>k<length (s # ss). (s # ss) ! k \<noteq> Idle"
      using True ih(1) by (auto simp: nth_Cons settled_def split: nat.splits)
    have b: "(s # ss) ! j = Checking"
      if "i < j" "j < length (s # ss)" "(s # ss) ! i = Checking" for i j
    proof (cases i)
      case 0
      with that True show ?thesis by (simp add: settled_def)
    next
      case (Suc i')
      with that obtain j' where "j = Suc j'" by (cases j) auto
      with that Suc ih(2) show ?thesis by auto
    qed
    from a b show ?thesis by blast
  next
    case False
    with Cons.prems have "\<forall>x\<in>set (s # ss). x = Checking"
      by (simp add: list_all_iff)
    then have "\<forall>k<length (s # ss). (s # ss) ! k = Checking"
      using nth_mem by blast
    then show ?thesis by auto
  qed
qed

lemma settledFirst_step:
  "\<forall>x\<in>set pre. settled x \<Longrightarrow> \<forall>x\<in>set post. x = Checking \<Longrightarrow> s = Checking \<or> settled s \<Longrightarrow>
   settledFirst (pre @ s # post)"
  by (auto simp: settledFirst_append list_all_iff intro: settledFirst_checking)

lemma map_by_id_split:
  assumes "distinct (map tc_id (pre @ y # post))"
  shows "map (\<lambda>t. if tc_id t = tc_id y then f t else t) (pre @ y # post) = pre @ f y # post"
proof -
  from assms have "tc_id y \<notin> tc_id ` set pre" "tc_id y \<notin> tc_id ` set post"
    by auto
  then have "\<forall>t\<in>set pre. tc_id t \<noteq> tc_id y" "\<forall>t\<in>set post. tc_id t \<noteq> tc_id y"
    by (metis imageI)+
  then have "map (\<lambda>t. if tc_id t = tc_id y then f t else t) pre = pre"
    "map (\<lambda>t. if tc_id t = tc_id y then f t else t) post = post"
    by (simp_all add: map_idI)
  then show ?thesis by simp
qed

lemma setTestStatus_split:
  "testCases s = pre @ y # post \<Longrightarrow> distinct (map tc_id (pre @ y # post)) \<Longrightarrow>
   testCases (setTestStatus (tc_id y) st fb s) = pre @ y\<lparr>status := st, feedback := fb\<rparr> # post"
  by (simp only: setTestStatus_def map_by_id_split) simp

lemma setResults_split:
  "testCases s = pre @ y # post \<Longrightarrow> distinct (map tc_id (pre @ y # post)) \<Longrightarrow>
   testCases (setResults (tc_id y) r s) = pre @ y\<lparr>result := Some r\<rparr> # post"
  by (simp only: setResults_def map_by_id_split) simp

lemma checkCode_loop_observed:
  fixes T :: "TestStatus \<Rightarrow> bool" and Q :: "TestStatus list \<Rightarrow> bool"
  assumes step: "\<And>pre s post. \<forall>x\<in>set pre. settled x \<Longrightarrow> \<forall>x\<in>set post. T x \<Longrightarrow>
                   s = Checking \<or> settled s \<Longrightarrow> Q (pre @ s # post)"
    and "testCases (store w) = pre @ todo" and "map tc_id todo = map tc_id rest"
    and "distinct (map tc_id (pre @ todo))" and "\<forall>t\<in>set pre. settled (status t)"
    and "\<forall>t\<in>set todo. T (status t)"
  shows "\<exists>new pre' post'.
           observed (snd (checkCode_loop gw re src lang prob rest w)) = observed w @ new
         \<and> (\<forall>\<sigma>\<in>set new. Q (map status (testCases \<sigma>)))
         \<and> testCases (store (snd (checkCode_loop gw re src lang prob rest w))) = pre' @ post'
         \<and> (\<forall>t\<in>set pre'. settled (status t))
         \<and> (post' = [] \<or> status (hd post') = Checking)
         \<and> (\<forall>t\<in>set (tl post'). T (status t))"
  using assms(2-)
proof (induction rest arbitrary: w pre todo)
  case Nil
  then have "todo = []" by simp
  with Nil.prems have "observed (snd (checkCode_loop gw re src lang prob [] w)) = observed w @ []
    \<and> (\<forall>\<sigma>\<in>set []. Q (map status (testCases \<sigma>)))
    \<and> testCases (store (snd (checkCode_loop gw re src lang prob [] w))) = pre @ []
    \<and> (\<forall>t\<in>set pre. settled (status t))
    \<and> ([] = [] \<or> status (hd []) = Checking)
    \<and> (\<forall>t\<in>set (tl []). T (status t))"
    by simp
  then show ?case by blast
next
  case (Cons tc rest)
  from Cons.prems(2) obtain y todo' where todo: "todo = y # todo'"
    and id: "tc_id y = tc_id tc" and ids': "map tc_id todo' = map tc_id rest"
    by (cases todo) auto
  note tcs = Cons.prems(1) [unfolded todo]
  note dist = Cons.prems(3) [unfolded todo]
  from Cons.prems(5) todo have nc: "\<forall>t\<in>set todo'. T (status t)" by simp
  have pre: "\<forall>x\<in>set (map status pre). settled x" using Cons.prems(4) by simp
  have post: "\<forall>x\<in>set (map status todo'). T x" using nc by simp
  let ?w1 = "set_state (setTestStatus (tc_id tc) Checking None) w"
  let ?y1 = "y\<lparr>status := Checking, feedback := None\<rparr>"
  have t1: "testCases (store ?w1) = pre @ ?y1 # todo'"
    using setTestStatus_split [OF tcs dist] by (simp add: id)
  have d1: "distinct (map tc_id (pre @ ?y1 # todo'))" using dist by simp
  have o1: "Q (map status (testCases (store ?w1)))"
    unfolding t1 using step [OF pre post, of Checking] by simp
  let ?ex = "getHeadlessExecutor gw lang (codeToRun re prob lang tc src) (stdinOf tc) ?w1"
  obtain r w2 where ex: "?ex = (r, w2)" by (cases ?ex)
  from executor_snd [OF ex] have s2: "store w2 = store ?w1" and ob2: "observed w2 = observed ?w1"
    by simp_all
  show ?case
  proof (cases r)
    case (Inl e)
    have l: "checkCode_loop gw re src lang prob (tc # rest) w = (Some e, w2)"
      using ex Inl by (simp add: Let_def)
    have "observed (snd (checkCode_loop gw re src lang prob (tc # rest) w)) = observed w @ [store ?w1]
      \<and> (\<forall>\<sigma>\<in>set [store ?w1]. Q (map status (testCases \<sigma>)))
      \<and> testCases (store (snd (checkCode_loop gw re src lang prob (tc # rest) w))) = pre @ (?y1 # todo')
      \<and> (\<forall>t\<in>set pre. settled (status t))
      \<and> (?y1 # todo' = [] \<or> status (hd (?y1 # todo')) = Checking)
      \<and> (\<forall>t\<in>set (tl (?y1 # todo')). T (status t))"
      unfolding l using o1 t1 Cons.prems(4) nc by (simp add: s2 ob2)
    then show ?thesis by blast
  next
    case (Inr res)
    define vd where "vd = classify res (expectedOutput tc)"
    let ?w3 = "set_state (setResults (tc_id tc) res) w2"
    let ?w4 = "set_state (setTestStatus (tc_id tc) (fst vd) (snd vd)) ?w3"
    let ?y2 = "?y1\<lparr>result := Some res\<rparr>"
    let ?y3 = "?y2\<lparr>status := fst vd, feedback := snd vd\<rparr>"
    have l: "checkCode_loop gw re src lang prob (tc # rest) w =
               checkCode_loop gw re src lang prob rest ?w4"
      using ex Inr by (simp add: Let_def vd_def)
    have t2: "testCases (store w2) = pre @ ?y1 # todo'" using t1 s2 by simp
    have t3: "testCases (store ?w3) = pre @ ?y2 # todo'"
      using setResults_split [OF t2 d1] by (simp add: id)
    have d3: "distinct (map tc_id (pre @ ?y2 # todo'))" using dist by simp
    have t4: "testCases (store ?w4) = (pre @ [?y3]) @ todo'"
      using setTestStatus_split [OF t3 d3] by (simp add: id)
    have o3: "Q (map status (testCases (store ?w3)))"
      unfolding t3 using step [OF pre post, of Checking] by simp
    have sy: "settled (status ?y3)" by (simp add: vd_def classify_settled)
    have p4: "\<forall>t\<in>set (pre @ [?y3]). settled (status t)"
      using Cons.prems(4) sy by simp
    have o4: "Q (map status (testCases (store ?w4)))"
      unfolding t4 using step [OF pre post, of "fst vd"] sy by simp
    have d4: "distinct (map tc_id ((pre @ [?y3]) @ todo'))" using dist by simp
    from Cons.IH [OF t4 ids' d4 p4 nc] obtain new pre' post' where
      ih: "observed (snd (checkCode_loop gw re src lang prob rest ?w4)) = observed ?w4 @ new"
        "\<forall>\<sigma>\<in>set new. Q (map status (testCases \<sigma>))"
        "testCases (store (snd (checkCode_loop gw re src lang prob rest ?w4))) = pre' @ post'"
        "\<forall>t\<in>set pre'. settled (status t)" "post' = [] \<or> status (hd post') = Checking"
        "\<forall>t\<in>set (tl post'). T (status t)"
      by blast
    have ob4: "observed ?w4 = observed w @ [store ?w1, store ?w3, store ?w4]"
      by (simp add: ob2)
    have "observed (snd (checkCode_loop gw re src lang prob (tc # rest) w)) =
            observed w @ ([store ?w1, store ?w3, store ?w4] @ new)"
      unfolding l ih(1) ob4 by simp
    moreover have "\<forall>\<sigma>\<in>set ([store ?w1, store ?w3, store ?w4] @ new).
        Q (map status (testCases \<sigma>))"
      using o1 o3 o4 ih(2) by simp
    moreover have "testCases (store (snd (checkCode_loop gw re src lang prob (tc # rest) w))) =
        pre' @ post'"
      unfolding l by (rule ih(3))
    ultimately show ?thesis using ih(4,5,6) by blast
  qed
qed

lemma failAll_inOrder:
  assumes "testCases (store w) = pre @ post" and "\<forall>t\<in>set pre. settled (status t)"
    and "\<forall>t\<in>set (tl post). status t \<noteq> Checking"
  shows "\<exists>new. observed (failAll xs w) = observed w @ new
           \<and> (\<forall>\<sigma>\<in>set new. inOrder (map status (testCases \<sigma>)))"
  using assms unfolding failAll_def
proof (induction xs arbitrary: w pre post)
  case Nil
  show ?case by simp
next
  case (Cons x xs)
  let ?g = "\<lambda>t. if tc_id t = tc_id x then t\<lparr>status := Fail, feedback := Some unexpectedError\<rparr> else t"
  let ?w1 = "set_state (setTestStatus (tc_id x) Fail (Some unexpectedError)) w"
  have t1: "testCases (store ?w1) = map ?g pre @ map ?g post"
    using Cons.prems(1) by (simp add: setTestStatus_def)
  have p1: "\<forall>t\<in>set (map ?g pre). settled (status t)"
    using Cons.prems(2) by (auto simp: settled_def)
  have q1: "\<forall>t\<in>set (tl (map ?g post)). status t \<noteq> Checking"
    using Cons.prems(3) by (cases post) auto
  have o1: "inOrder (map status (testCases (store ?w1)))"
    unfolding t1 using p1 q1 by (rule statuses_inOrder)
  from Cons.IH [OF t1 p1 q1] obtain new where
    ih: "observed (fold (\<lambda>testCase. set_state (setTestStatus (tc_id testCase) Fail
             (Some unexpectedError))) xs ?w1) = observed ?w1 @ new"
      "\<forall>\<sigma>\<in>set new. inOrder (map status (testCases \<sigma>))"
    by blast
  have "observed (fold (\<lambda>testCase. set_state (setTestStatus (tc_id testCase) Fail
             (Some unexpectedError))) (x # xs) w) = observed w @ (store ?w1 # new)"
    using ih(1) by simp
  moreover have "\<forall>\<sigma>\<in>set (store ?w1 # new). inOrder (map status (testCases \<sigma>))"
    using o1 ih(2) by simp
  ultimately show ?case by blast
qed

lemma failAll_settledFirst:
  assumes "testCases (store w) = a @ b" and "map tc_id b = map tc_id xs"
    and "distinct (map tc_id (a @ b))" and "\<forall>t\<in>set a. settled (status t)"
    and "settledFirst (map status b)"
  shows "\<exists>new. observed (failAll xs w) = observed w @ new
           \<and> (\<forall>\<sigma>\<in>set new. settledFirst (map status (testCases \<sigma>)))
           \<and> settledFirst (map status (testCases (store (failAll xs w))))"
  using assms unfolding failAll_def
proof (induction xs arbitrary: w a b)
  case Nil
  then have "b = []" by simp
  with Nil.prems(1,4) settledFirst_append [of "map status a" "[]"] show ?case by simp
next
  case (Cons x xs)
  from Cons.prems(2) obtain y b' where b: "b = y # b'"
    and id: "tc_id y = tc_id x" and ids': "map tc_id b' = map tc_id xs"
    by (cases b) auto
  note tcs = Cons.prems(1) [unfolded b]
  note dist = Cons.prems(3) [unfolded b]
  let ?w1 = "set_state (setTestStatus (tc_id x) Fail (Some unexpectedError)) w"
  let ?y1 = "y\<lparr>status := Fail, feedback := Some unexpectedError\<rparr>"
  have t1: "testCases (store ?w1) = (a @ [?y1]) @ b'"
    using setTestStatus_split [OF tcs dist] by (simp add: id)
  have d1: "distinct (map tc_id ((a @ [?y1]) @ b'))" using dist by simp
  have p1: "\<forall>t\<in>set (a @ [?y1]). settled (status t)"
    using Cons.prems(4) by (simp add: settled_def)
  have q1: "settledFirst (map status b')"
    using Cons.prems(5) settledFirst_tl [of "status y" "map status b'"] by (simp add: b)
  have o1: "settledFirst (map status (testCases (store ?w1)))"
    unfolding t1 using p1 q1 settledFirst_append [of "map status (a @ [?y1])" "map status b'"]
    by simp
  from Cons.IH [OF t1 ids' d1 p1 q1] obtain new where
    ih: "observed (fold (\<lambda>testCase. set_state (setTestStatus (tc_id testCase) Fail
             (Some unexpectedError))) xs ?w1) = observed ?w1 @ new"
      "\<forall>\<sigma>\<in>set new. settledFirst (map status (testCases \<sigma>))"
      "settledFirst (map status (testCases (store (fold (\<lambda>testCase. set_state
          (setTestStatus (tc_id testCase) Fail (Some unexpectedError))) xs ?w1))))"
    by blast
  have "observed (fold (\<lambda>testCase. set_state (setTestStatus (tc_id testCase) Fail
             (Some unexpectedError))) (x # xs) w) = observed w @ (store ?w1 # new)"
    using ih(1) by simp
  moreover have "\<forall>\<sigma>\<in>set (store ?w1 # new). settledFirst (map status (testCases \<sigma>))"
    using o1 ih(2) by simp
  ultimately show ?case using ih(3) by auto
qed

lemma fold_set_state_observed:
  "\<exists>new. observed (fold (\<lambda>x. set_state (f x)) xs w) = observed w @ new \<and> length new = length xs
      \<and> (xs \<noteq> [] \<longrightarrow> last new = store (fold (\<lambda>x. set_state (f x)) xs w))"
proof (induction xs arbitrary: w)
  case Nil
  show ?case by simp
next
  case (Cons x xs)
  from Cons.IH [of "set_state (f x) w"] obtain new where
    new: "observed (fold (\<lambda>x. set_state (f x)) xs (set_state (f x) w)) =
            observed (set_state (f x) w) @ new" "length new = length xs"
      "xs \<noteq> [] \<longrightarrow> last new = store (fold (\<lambda>x. set_state (f x)) xs (set_state (f x) w))"
    by blast
  have "observed (fold (\<lambda>x. set_state (f x)) (x # xs) w) = observed w @ (f x (store w) # new)"
    using new(1) by simp
  moreover have "length (f x (store w) # new) = length (x # xs)"
    using new(2) by simp
  moreover have "last (f x (store w) # new) = store (fold (\<lambda>x. set_state (f x)) (x # xs) w)"
    using new(2,3) by (cases xs) auto
  ultimately show ?case by blast
qed

lemma mark_all_checking:
  "testCases (store (fold (\<lambda>tc. set_state (setTestStatus (tc_id tc) Checking None))
      (testCases (store w)) w)) =
   map (\<lambda>t. t\<lparr>status := Checking, feedback := None\<rparr>) (testCases (store w))"
  by (simp add: fold_setTestStatus)

lemma runTests_nonempty:
  "testCases (store w) \<noteq> [] \<Longrightarrow>
   runTests gw re uuidv4 now w =
     set_state (updateProblemProgress now
         (allPassed (store (snd (checkCode gw re (code (store w))
            (fold (\<lambda>tc. set_state (setTestStatus (tc_id tc) Checking None))
               (testCases (store w)) w))))))
       (snd (checkCode gw re (code (store w))
          (fold (\<lambda>tc. set_state (setTestStatus (tc_id tc) Checking None))
             (testCases (store w)) w)))"
  by (simp add: runTests_def Let_def case_checkCode)

lemma checkCode_observed_inOrder:
  assumes "distinct (map tc_id (testCases (store w)))"
    and "\<forall>t\<in>set (testCases (store w)). status t \<noteq> Checking"
  shows "\<exists>new. observed (snd (checkCode gw re src w)) = observed w @ new
           \<and> (\<forall>\<sigma>\<in>set new. inOrder (map status (testCases \<sigma>)))"
proof -
  let ?tcs = "testCases (store w)"
  let ?l = "checkCode_loop gw re src (activeLanguage (store w)) (currentProblem (store w)) ?tcs w"
  have "testCases (store w) = [] @ ?tcs" "map tc_id ?tcs = map tc_id ?tcs"
    "distinct (map tc_id ([] @ ?tcs))" "\<forall>t\<in>set []. settled (status t)"
    using assms(1) by simp_all
  from checkCode_loop_observed [where T = "\<lambda>s. s \<noteq> Checking" and Q = inOrder,
      OF inOrder_step this assms(2), of gw re src "activeLanguage (store w)"
      "currentProblem (store w)"]
  obtain new pre' post' where
    lp: "observed (snd ?l) = observed w @ new"
      "\<forall>\<sigma>\<in>set new. inOrder (map status (testCases \<sigma>))"
      "testCases (store (snd ?l)) = pre' @ post'"
      "\<forall>t\<in>set pre'. settled (status t)" "\<forall>t\<in>set (tl post'). status t \<noteq> Checking"
    by blast
  from failAll_inOrder [OF lp(3,4,5), of ?tcs] obtain new' where
    fa: "observed (failAll ?tcs (snd ?l)) = observed (snd ?l) @ new'"
      "\<forall>\<sigma>\<in>set new'. inOrder (map status (testCases \<sigma>))"
    by blast
  show ?thesis
  proof (cases "fst ?l")
    case None
    with lp(1,2) show ?thesis by (simp add: checkCode_snd)
  next
    case (Some e)
    have "observed (snd (checkCode gw re src w)) = observed w @ (new @ new')"
      using Some fa(1) lp(1) by (simp add: checkCode_snd)
    moreover have "\<forall>\<sigma>\<in>set (new @ new'). inOrder (map status (testCases \<sigma>))"
      using lp(2) fa(2) by auto
    ultimately show ?thesis by blast
  qed
qed

lemma checkCode_observed_settledFirst:
  assumes "distinct (map tc_id (testCases (store w)))"
    and "\<forall>t\<in>set (testCases (store w)). status t = Checking"
  shows "\<exists>new. observed (snd (checkCode gw re src w)) = observed w @ new
           \<and> (\<forall>\<sigma>\<in>set new. settledFirst (map status (testCases \<sigma>)))
           \<and> settledFirst (map status (testCases (store (snd (checkCode gw re src w)))))"
proof -
  let ?tcs = "testCases (store w)"
  let ?l = "checkCode_loop gw re src (activeLanguage (store w)) (currentProblem (store w)) ?tcs w"
  have "testCases (store w) = [] @ ?tcs" "map tc_id ?tcs = map tc_id ?tcs"
    "distinct (map tc_id ([] @ ?tcs))" "\<forall>t\<in>set []. settled (status t)"
    using assms(1) by simp_all
  from checkCode_loop_observed [where T = "\<lambda>s. s = Checking" and Q = settledFirst,
      OF settledFirst_step this assms(2), of gw re src "activeLanguage (store w)"
      "currentProblem (store w)"]
  obtain new pre' post' where
    lp: "observed (snd ?l) = observed w @ new"
      "\<forall>\<sigma>\<in>set new. settledFirst (map status (testCases \<sigma>))"
      "testCases (store (snd ?l)) = pre' @ post'"
      "\<forall>t\<in>set pre'. settled (status t)" "post' = [] \<or> status (hd post') = Checking"
      "\<forall>t\<in>set (tl post'). status t = Checking"
    by blast
  have "\<forall>x\<in>set (map status post'). x = Checking"
    using lp(5,6) by (cases post') auto
  then have "settledFirst (map status post')" by (rule settledFirst_checking)
  then have sf: "settledFirst (map status (testCases (store (snd ?l))))"
    using lp(4) settledFirst_append [of "map status pre'" "map status post'"]
    by (simp add: lp(3))
  have ids: "map tc_id (testCases (store (snd ?l))) = map tc_id ?tcs"
    by (rule sameSubmission_ids [OF checkCode_loop_same])
  show ?thesis
  proof (cases "fst ?l")
    case None
    with lp(1,2) sf show ?thesis by (simp add: checkCode_snd)
  next
    case (Some e)
    have "testCases (store (snd ?l)) = [] @ testCases (store (snd ?l))"
      "distinct (map tc_id ([] @ testCases (store (snd ?l))))" "\<forall>t\<in>set []. settled (status t)"
      using assms(1) ids by simp_all
    from failAll_settledFirst [OF this(1) ids this(2,3) sf] obtain new' where
      fa: "observed (failAll ?tcs (snd ?l)) = observed (snd ?l) @ new'"
        "\<forall>\<sigma>\<in>set new'. settledFirst (map status (testCases \<sigma>))"
        "settledFirst (map status (testCases (store (failAll ?tcs (snd ?l)))))"
      by blast
    have "observed (snd (checkCode gw re src w)) = observed w @ (new @ new')"
      using Some fa(1) lp(1) by (simp add: checkCode_snd)
    moreover have "\<forall>\<sigma>\<in>set (new @ new'). settledFirst (map status (testCases \<sigma>))"
      using lp(2) fa(2) by auto
    moreover have "settledFirst (map status (testCases (store (snd (checkCode gw re src w)))))"
      using Some fa(3) by (simp add: checkCode_snd)
    ultimately show ?thesis by blast
  qed
qed

text \<open>
  C3, as stated, fails for a submission: \<^verbatim>\<open>runTests\<close> sets every test case to checking
  before the check starts, so that both cases of a store with two test cases are checking
  at once.
\<close>

theorem runTests_marks_all_checking:
  "map (map status) (map testCases
     (observed (runTests cleanExitEngine noRegexp fixedUuid (S ''t'') (startWorld twoCases)))) =
   [ [Checking, Idle], [Checking, Checking],
    [Checking, Checking], [Checking, Checking], [Fail, Checking],
    [Fail, Checking], [Fail, Checking], [Fail, Pass], [Fail, Pass] ]"
  by (simp add: run_defs submit_defs twoCases_def cleanExitEngine_def S_def)

text \<open>
  C3, amended. Let the identifiers of the test cases be distinct. When no test case is
  checking at the start of a check, every store state seen during it has each case before
  a checking case settled, and at most one case checking. A submission over a non-empty
  list first sets all its test cases to checking; in every store state seen after that no
  case is idle and every case behind a checking case is checking, that is, the cases
  settle in the order of the list.
\<close>

theorem status_sequencing:
  assumes "distinct (map tc_id (testCases (store w)))"
  shows "((\<forall>t\<in>set (testCases (store w)). status t \<noteq> Checking) \<longrightarrow>
          (\<forall>\<sigma>\<in>set (drop (length (observed w)) (observed (snd (checkCode gw re src w)))).
             (\<forall>i j. i < j \<and> j < length (testCases \<sigma>) \<and> status (testCases \<sigma> ! j) = Checking \<longrightarrow>
                    status (testCases \<sigma> ! i) = Pass \<or> status (testCases \<sigma> ! i) = Fail)
             \<and> length (filter (\<lambda>t. status t = Checking) (testCases \<sigma>)) \<le> 1))
       \<and> (testCases (store w) \<noteq> [] \<longrightarrow>
            map status (testCases (observed (runTests gw re uuidv4 now w) !
               (length (observed w) + length (testCases (store w)) - 1))) =
              replicate (length (testCases (store w))) Checking
          \<and> (\<forall>\<sigma>\<in>set (drop (length (observed w) + length (testCases (store w)))
                        (observed (runTests gw re uuidv4 now w))).
               (\<forall>k<length (testCases \<sigma>). status (testCases \<sigma> ! k) \<noteq> Idle)
               \<and> (\<forall>i j. i < j \<and> j < length (testCases \<sigma>) \<and> status (testCases \<sigma> ! i) = Checking \<longrightarrow>
                      status (testCases \<sigma> ! j) = Checking)))"
proof (intro conjI impI)
  assume nc: "\<forall>t\<in>set (testCases (store w)). status t \<noteq> Checking"
  from checkCode_observed_inOrder [OF assms nc, of gw re src]
  obtain new where new: "observed (snd (checkCode gw re src w)) = observed w @ new"
    "\<forall>\<sigma>\<in>set new. inOrder (map status (testCases \<sigma>))"
    by blast
  show "\<forall>\<sigma>\<in>set (drop (length (observed w)) (observed (snd (checkCode gw re src w)))).
             (\<forall>i j. i < j \<and> j < length (testCases \<sigma>) \<and> status (testCases \<sigma> ! j) = Checking \<longrightarrow>
                    status (testCases \<sigma> ! i) = Pass \<or> status (testCases \<sigma> ! i) = Fail)
             \<and> length (filter (\<lambda>t. status t = Checking) (testCases \<sigma>)) \<le> 1"
  proof
    fix \<sigma>
    assume "\<sigma> \<in> set (drop (length (observed w)) (observed (snd (checkCode gw re src w))))"
    with new have io: "inOrder (map status (testCases \<sigma>))" by simp
    have a: "status (testCases \<sigma> ! i) = Pass \<or> status (testCases \<sigma> ! i) = Fail"
      if "i < j" "j < length (testCases \<sigma>)" "status (testCases \<sigma> ! j) = Checking" for i j
      using inOrder_index [OF io, of i j] that by (simp add: settled_def)
    have "filter (\<lambda>s. s = Checking) (map status (testCases \<sigma>)) =
          map status (filter (\<lambda>t. status t = Checking) (testCases \<sigma>))"
      by (simp add: filter_map comp_def)
    with inOrder_count [OF io]
    have b: "length (filter (\<lambda>t. status t = Checking) (testCases \<sigma>)) \<le> 1" by simp
    from a b show "(\<forall>i j. i < j \<and> j < length (testCases \<sigma>) \<and> status (testCases \<sigma> ! j) = Checking \<longrightarrow>
                  status (testCases \<sigma> ! i) = Pass \<or> status (testCases \<sigma> ! i) = Fail)
           \<and> length (filter (\<lambda>t. status t = Checking) (testCases \<sigma>)) \<le> 1"
      by blast
  qed
next
  let ?tcs = "testCases (store w)"
  let ?mark = "\<lambda>tc. set_state (setTestStatus (tc_id tc) Checking None)"
  let ?w2 = "fold ?mark ?tcs w"
  let ?w3 = "snd (checkCode gw re (code (store w)) ?w2)"
  assume ne: "?tcs \<noteq> []"
  from fold_set_state_observed [of "\<lambda>tc. setTestStatus (tc_id tc) Checking None" ?tcs w] ne
  obtain marks where marks: "observed ?w2 = observed w @ marks" "length marks = length ?tcs"
    "last marks = store ?w2"
    by blast
  have t2: "testCases (store ?w2) = map (\<lambda>t. t\<lparr>status := Checking, feedback := None\<rparr>) ?tcs"
    by (rule mark_all_checking)
  have d2: "distinct (map tc_id (testCases (store ?w2)))"
    using assms by (simp add: t2 comp_def)
  have c2: "\<forall>t\<in>set (testCases (store ?w2)). status t = Checking"
    by (simp add: t2)
  from checkCode_observed_settledFirst [OF d2 c2, of gw re "code (store w)"]
  obtain new where new: "observed ?w3 = observed ?w2 @ new"
    "\<forall>\<sigma>\<in>set new. settledFirst (map status (testCases \<sigma>))"
    "settledFirst (map status (testCases (store ?w3)))"
    by blast
  let ?fin = "updateProblemProgress now (allPassed (store ?w3)) (store ?w3)"
  have obs: "observed (runTests gw re uuidv4 now w) = observed w @ marks @ new @ [?fin]"
    by (simp add: runTests_nonempty [OF ne] new(1) marks(1))
  have mne: "marks \<noteq> []" using marks(2) ne by auto
  have ix: "length (observed w) + length ?tcs - 1 = length (observed w) + (length marks - 1)"
    using mne marks(2) by (cases marks) auto
  have "(marks @ new @ [?fin]) ! (length marks - 1) = marks ! (length marks - 1)"
    using mne by (simp add: nth_append)
  then have "observed (runTests gw re uuidv4 now w) ! (length (observed w) + length ?tcs - 1) =
        marks ! (length marks - 1)"
    unfolding ix obs by (simp only: nth_append_length_plus)
  also have "\<dots> = store ?w2"
    using mne marks(3) by (simp add: last_conv_nth)
  finally show "map status (testCases (observed (runTests gw re uuidv4 now w) !
               (length (observed w) + length ?tcs - 1))) = replicate (length ?tcs) Checking"
    by (simp add: t2 comp_def map_replicate_const)
  have dr: "drop (length (observed w) + length ?tcs) (observed (runTests gw re uuidv4 now w)) =
            new @ [?fin]"
    using marks(2) by (simp add: obs)
  show "\<forall>\<sigma>\<in>set (drop (length (observed w) + length ?tcs) (observed (runTests gw re uuidv4 now w))).
               (\<forall>k<length (testCases \<sigma>). status (testCases \<sigma> ! k) \<noteq> Idle)
               \<and> (\<forall>i j. i < j \<and> j < length (testCases \<sigma>) \<and> status (testCases \<sigma> ! i) = Checking \<longrightarrow>
                      status (testCases \<sigma> ! j) = Checking)"
  proof
    fix \<sigma>
    assume "\<sigma> \<in> set (drop (length (observed w) + length ?tcs)
                 (observed (runTests gw re uuidv4 now w)))"
    then have "\<sigma> \<in> set new \<or> \<sigma> = ?fin" by (auto simp: dr)
    then have "settledFirst (map status (testCases \<sigma>))"
      using new(2,3) by auto
    from settledFirst_index [OF this]
    have a: "\<forall>k<length (map status (testCases \<sigma>)). map status (testCases \<sigma>) ! k \<noteq> Idle"
      and b: "\<forall>i j. i < j \<and> j < length (map status (testCases \<sigma>))
                 \<and> map status (testCases \<sigma>) ! i = Checking \<longrightarrow>
               map status (testCases \<sigma>) ! j = Checking"
      by blast+
    have a': "status (testCases \<sigma> ! k) \<noteq> Idle" if "k < length (testCases \<sigma>)" for k
      using a that by simp
    have b': "status (testCases \<sigma> ! j) = Checking"
      if "i < j" "j < length (testCases \<sigma>)" "status (testCases \<sigma> ! i) = Checking" for i j
      using b [rule_format, of i j] that by simp
    from a' b'
    show "(\<forall>k<length (testCases \<sigma>). status (testCases \<sigma> ! k) \<noteq> Idle)
               \<and> (\<forall>i j. i < j \<and> j < length (testCases \<sigma>) \<and> status (testCases \<sigma> ! i) = Checking \<longrightarrow>
                      status (testCases \<sigma> ! j) = Checking)"
      by blast
  qed
qed

theorem status_sequencing_witness:
  "distinct (map tc_id (testCases (store (startWorld twoCases))))
   \<and> map status (testCases (store (startWorld twoCases))) = [Idle, Idle]
   \<and> observed (snd (checkCode cleanExitEngine noRegexp (S ''c'') (startWorld twoCases))) ! 3
       \<in> set (drop (length (observed (startWorld twoCases)))
                (observed (snd (checkCode cleanExitEngine noRegexp (S ''c'') (startWorld twoCases)))))
   \<and> map status (testCases
         (observed (snd (checkCode cleanExitEngine noRegexp (S ''c'') (startWorld twoCases))) ! 3))
       = [Fail, Checking]
   \<and> length (filter (\<lambda>t. status t = Checking) (testCases
         (observed (snd (checkCode cleanExitEngine noRegexp (S ''c'') (startWorld twoCases))) ! 3)))
       \<le> 1
   \<and> testCases (store (startWorld twoCases)) \<noteq> []
   \<and> map status (testCases
         (observed (runTests cleanExitEngine noRegexp fixedUuid (S ''t'') (startWorld twoCases)) ! 1))
       = replicate 2 Checking
   \<and> observed (runTests cleanExitEngine noRegexp fixedUuid (S ''t'') (startWorld twoCases)) ! 6
       \<in> set (drop (length (observed (startWorld twoCases))
                      + length (testCases (store (startWorld twoCases))))
                (observed (runTests cleanExitEngine noRegexp fixedUuid (S ''t'') (startWorld twoCases))))
   \<and> map status (testCases
         (observed (runTests cleanExitEngine noRegexp fixedUuid (S ''t'') (startWorld twoCases)) ! 6))
       = [Fail, Checking]"
proof -
  let ?w = "startWorld twoCases"
  let ?obs = "observed (snd (checkCode cleanExitEngine noRegexp (S ''c'') ?w))"
  let ?run = "observed (runTests cleanExitEngine noRegexp fixedUuid (S ''t'') ?w)"
  have d: "distinct (map tc_id (testCases (store ?w)))"
    by (simp add: startWorld_def twoCases_def S_def)
  have i0: "map status (testCases (store ?w)) = [Idle, Idle]"
    by (simp add: startWorld_def twoCases_def)
  have n: "\<forall>t\<in>set (testCases (store ?w)). status t \<noteq> Checking"
    by (simp add: startWorld_def twoCases_def)
  have ne: "testCases (store ?w) \<noteq> []"
    by (simp add: startWorld_def twoCases_def)
  have l0: "length (observed ?w) = 0" "length (testCases (store ?w)) = 2"
    by (simp_all add: startWorld_def twoCases_def)
  have st: "map (map status) (map testCases ?obs) =
     [ [Checking, Idle], [Checking, Idle], [Fail, Idle], [Fail, Checking], [Fail, Checking],
      [Fail, Pass] ]"
    by (simp add: run_defs submit_defs twoCases_def cleanExitEngine_def S_def)
  have len: "length ?obs = 6"
    using arg_cong [OF st, of length] by simp
  have s3: "map status (testCases (?obs ! 3)) = [Fail, Checking]"
    using arg_cong [OF st, of "\<lambda>xs. xs ! 3"] len by simp
  have m: "?obs ! 3 \<in> set (drop (length (observed ?w)) ?obs)"
    using len by (simp add: l0)
  have rn: "map (map status) (map testCases ?run) =
     [ [Checking, Idle], [Checking, Checking],
      [Checking, Checking], [Checking, Checking], [Fail, Checking],
      [Fail, Checking], [Fail, Checking], [Fail, Pass], [Fail, Pass] ]"
    by (simp add: run_defs submit_defs twoCases_def cleanExitEngine_def S_def)
  have rlen: "length ?run = 9"
    using arg_cong [OF rn, of length] by simp
  have r6: "map status (testCases (?run ! 6)) = [Fail, Checking]"
    using arg_cong [OF rn, of "\<lambda>xs. xs ! 6"] rlen by simp
  have "?run ! 6 \<in> set (drop (0 + 2) ?run)"
    using rlen by (simp add: in_set_conv_nth) (rule exI [of _ 4], simp)
  then have m6: "?run ! 6 \<in> set (drop (length (observed ?w) + length (testCases (store ?w))) ?run)"
    by (simp only: l0)
  note t = status_sequencing [OF d, of cleanExitEngine noRegexp "S ''c''" fixedUuid "S ''t''"]
  from t n m have c: "length (filter (\<lambda>t. status t = Checking) (testCases (?obs ! 3))) \<le> 1"
    by blast
  from t ne have "map status (testCases (?run !
       (length (observed ?w) + length (testCases (store ?w)) - 1))) =
      replicate (length (testCases (store ?w))) Checking"
    by blast
  then have r1: "map status (testCases (?run ! 1)) = replicate 2 Checking"
    by (simp add: l0)
  from d i0 m s3 c ne r1 m6 r6 show ?thesis by simp
qed

section \<open>Properties of the progress store\<close>

lemma findIndex_Some:
  "findIndex P xs = Some i \<Longrightarrow> i < length xs \<and> P (xs ! i) \<and> find P xs = Some (xs ! i) \<and> (\<forall>j<i. \<not> P (xs ! j))"
proof (induction xs arbitrary: i)
  case Nil
  then show ?case by simp
next
  case (Cons x xs)
  show ?case
  proof (cases "P x")
    case True
    with Cons.prems show ?thesis by simp
  next
    case False
    with Cons.prems obtain k where k: "findIndex P xs = Some k" "i = Suc k"
      by auto
    from Cons.IH [OF k(1)] False k(2) show ?thesis
      by (auto simp: less_Suc_eq_0_disj)
  qed
qed

lemma findIndex_None:
  "findIndex P xs = None \<Longrightarrow> find P xs = None \<and> (\<forall>x\<in>set xs. \<not> P x)"
  by (induction xs) (auto split: if_splits)

lemma find_append_case:
  "find P (xs @ ys) = (case find P xs of None \<Rightarrow> find P ys | Some x \<Rightarrow> Some x)"
  by (induction xs) auto

lemma find_update_other:
  "i < length xs \<Longrightarrow> \<not> Q (xs ! i) \<Longrightarrow> \<not> Q y \<Longrightarrow> find Q (xs[i := y]) = find Q xs"
proof (induction xs arbitrary: i)
  case Nil
  then show ?case by simp
next
  case (Cons x xs)
  then show ?case by (cases i) auto
qed

lemma find_update_first:
  "i < length xs \<Longrightarrow> \<forall>j<i. \<not> Q (xs ! j) \<Longrightarrow> Q y \<Longrightarrow> find Q (xs[i := y]) = Some y"
proof (induction xs arbitrary: i)
  case Nil
  then show ?case by simp
next
  case (Cons x xs)
  show ?case
  proof (cases i)
    case 0
    with Cons.prems show ?thesis by simp
  next
    case (Suc k)
    with Cons.prems have "\<not> Q x" by auto
    moreover from Suc Cons.prems have "\<forall>j<k. \<not> Q (xs ! j)" by auto
    ultimately show ?thesis using Suc Cons.prems Cons.IH [of k] by simp
  qed
qed

lemma filter_update_same:
  "i < length xs \<Longrightarrow> \<not> Q (xs ! i) \<Longrightarrow> \<not> Q y \<Longrightarrow> filter Q (xs[i := y]) = filter Q xs"
proof (induction xs arbitrary: i)
  case Nil
  then show ?case by simp
next
  case (Cons x xs)
  then show ?case by (cases i) auto
qed

lemma updateProblemProgress_entry:
  assumes "currentProblem state = Some prob"
  shows "\<exists>new. getProgressForProblem (problem_id prob) (updateProblemProgress now p state) = Some new
           \<and> languages new (activeLanguage state) =
               Some \<lparr>lang_code = code state, passed = p, lang_lastAttempted = now\<rparr>
           \<and> solved new = ((case getProgressForProblem (problem_id prob) state of
                               None \<Rightarrow> False | Some old \<Rightarrow> solved old) \<or> p)
           \<and> (\<forall>old. getProgressForProblem (problem_id prob) state = Some old \<longrightarrow>
                 (\<forall>l. l \<noteq> activeLanguage state \<longrightarrow> languages new l = languages old l))"
proof (cases "findIndex (\<lambda>q. problemId q = problem_id prob) (userProgress state)")
  case None
  from findIndex_None [OF None]
  have nf: "find (\<lambda>q. problemId q = problem_id prob) (userProgress state) = None"
    by auto
  show ?thesis
    using assms None nf
    by (simp add: updateProblemProgress_def getProgressForProblem_def Let_def find_append_case)
next
  case (Some i)
  let ?xs = "userProgress state"
  from findIndex_Some [OF Some]
  have i: "i < length ?xs" and pi: "problemId (?xs ! i) = problem_id prob"
    and fi: "find (\<lambda>q. problemId q = problem_id prob) ?xs = Some (?xs ! i)"
    and before: "\<forall>j<i. problemId (?xs ! j) \<noteq> problem_id prob"
    by auto
  let ?new = "(?xs ! i)\<lparr>solved := solved (?xs ! i) \<or> p, lastAttempted := now,
      languages := (languages (?xs ! i))(activeLanguage state \<mapsto>
        \<lparr>lang_code = code state, passed = p, lang_lastAttempted = now\<rparr>)\<rparr>"
  have upd: "userProgress (updateProblemProgress now p state) = ?xs[i := ?new]"
    using assms Some by (simp add: updateProblemProgress_def Let_def)
  have c: "find (\<lambda>q. problemId q = problem_id prob) (?xs[i := ?new]) = Some ?new"
    using i pi before by (intro find_update_first) auto
  show ?thesis
    using c fi by (simp add: upd getProgressForProblem_def)
qed

text \<open>
  C9. With a current problem, the progress update leaves the entries of every other
  problem as they were, the entry of the problem exists afterwards with the sub-record of
  the active language written, and the sub-records of the other languages of an entry
  that existed are unchanged.
\<close>

theorem updateProblemProgress_frame:
  assumes "currentProblem state = Some prob"
  shows "filter (\<lambda>q. problemId q \<noteq> problem_id prob)
           (userProgress (updateProblemProgress now p state)) =
         filter (\<lambda>q. problemId q \<noteq> problem_id prob) (userProgress state)
       \<and> (\<forall>pid. pid \<noteq> problem_id prob \<longrightarrow>
            getProgressForProblem pid (updateProblemProgress now p state) =
            getProgressForProblem pid state)
       \<and> (\<exists>new. getProgressForProblem (problem_id prob) (updateProblemProgress now p state)
                   = Some new
              \<and> languages new (activeLanguage state) =
                  Some \<lparr>lang_code = code state, passed = p, lang_lastAttempted = now\<rparr>
              \<and> (\<forall>old. getProgressForProblem (problem_id prob) state = Some old \<longrightarrow>
                    (\<forall>l. l \<noteq> activeLanguage state \<longrightarrow> languages new l = languages old l)))"
proof (cases "findIndex (\<lambda>q. problemId q = problem_id prob) (userProgress state)")
  case None
  from findIndex_None [OF None]
  have nf: "find (\<lambda>q. problemId q = problem_id prob) (userProgress state) = None"
    and all: "\<forall>x\<in>set (userProgress state). problemId x \<noteq> problem_id prob"
    by auto
  show ?thesis
    using assms None nf
    by (auto simp: updateProblemProgress_def getProgressForProblem_def Let_def find_append_case split: option.splits)
next
  case (Some i)
  let ?xs = "userProgress state"
  from findIndex_Some [OF Some]
  have i: "i < length ?xs" and pi: "problemId (?xs ! i) = problem_id prob"
    and fi: "find (\<lambda>q. problemId q = problem_id prob) ?xs = Some (?xs ! i)"
    and before: "\<forall>j<i. problemId (?xs ! j) \<noteq> problem_id prob"
    by auto
  let ?new = "(?xs ! i)\<lparr>solved := solved (?xs ! i) \<or> p, lastAttempted := now,
      languages := (languages (?xs ! i))(activeLanguage state \<mapsto>
        \<lparr>lang_code = code state, passed = p, lang_lastAttempted = now\<rparr>)\<rparr>"
  have upd: "userProgress (updateProblemProgress now p state) = ?xs[i := ?new]"
    using assms Some by (simp add: updateProblemProgress_def Let_def)
  have a: "filter (\<lambda>q. problemId q \<noteq> problem_id prob) (?xs[i := ?new]) =
           filter (\<lambda>q. problemId q \<noteq> problem_id prob) ?xs"
    using i pi by (intro filter_update_same) auto
  have b: "find (\<lambda>q. problemId q = pid) (?xs[i := ?new]) = find (\<lambda>q. problemId q = pid) ?xs"
    if "pid \<noteq> problem_id prob" for pid
    using i pi that by (intro find_update_other) auto
  have c: "find (\<lambda>q. problemId q = problem_id prob) (?xs[i := ?new]) = Some ?new"
    using i pi before by (intro find_update_first) auto
  show ?thesis
    using a b c fi by (simp add: upd getProgressForProblem_def)
qed

theorem updateProblemProgress_frame_witness:
  "currentProblem twoLanguages = Some (emptyProblem\<lparr>problem_id := S ''a''\<rparr>)
   \<and> S ''b'' \<noteq> S ''a'' \<and> python \<noteq> activeLanguage twoLanguages
   \<and> getProgressForProblem (S ''b'') (updateProblemProgress (S ''3'') False twoLanguages) =
       getProgressForProblem (S ''b'') twoLanguages
   \<and> (\<exists>new. getProgressForProblem (S ''a'') (updateProblemProgress (S ''3'') False twoLanguages)
               = Some new
          \<and> languages new python =
              Some \<lparr>lang_code = S ''d'', passed = True, lang_lastAttempted = S ''2''\<rparr>)"
proof -
  let ?prob = "emptyProblem\<lparr>problem_id := S ''a''\<rparr>"
  let ?old = "\<lparr>problemId = S ''a'', solved = True, lastAttempted = S ''2'',
          languages = [python \<mapsto> \<lparr>lang_code = S ''d'', passed = True, lang_lastAttempted = S ''2''\<rparr>]\<rparr>"
  have cp: "currentProblem twoLanguages = Some ?prob"
    by (simp add: twoLanguages_def)
  have pid: "problem_id ?prob = S ''a''" by simp
  have ne: "S ''b'' \<noteq> S ''a''" by (simp add: S_def)
  have al: "python \<noteq> activeLanguage twoLanguages" by (simp add: twoLanguages_def)
  have old: "getProgressForProblem (S ''a'') twoLanguages = Some ?old"
    by (simp add: twoLanguages_def getProgressForProblem_def S_def)
  note t = updateProblemProgress_frame [OF cp, of "S ''3''" False, unfolded pid]
  from t ne have b: "getProgressForProblem (S ''b'') (updateProblemProgress (S ''3'') False twoLanguages) =
       getProgressForProblem (S ''b'') twoLanguages"
    by blast
  from t obtain new where new:
    "getProgressForProblem (S ''a'') (updateProblemProgress (S ''3'') False twoLanguages) = Some new"
    "\<forall>old. getProgressForProblem (S ''a'') twoLanguages = Some old \<longrightarrow>
       (\<forall>l. l \<noteq> activeLanguage twoLanguages \<longrightarrow> languages new l = languages old l)"
    by blast
  from new(2) old al have "languages new python = languages ?old python"
    by blast
  then have "languages new python =
      Some \<lparr>lang_code = S ''d'', passed = True, lang_lastAttempted = S ''2''\<rparr>"
    by simp
  with cp ne al b new(1) show ?thesis by blast
qed

text \<open>
  C10. When the current problem has a progress entry, the update sets its solved flag to
  the old flag or the new result, while the passed flag of the active language takes the
  new result; a solved problem stays solved after a failing submission.
\<close>

theorem solved_monotone:
  assumes "currentProblem state = Some prob"
    and "getProgressForProblem (problem_id prob) state = Some old"
  shows "\<exists>new lp. getProgressForProblem (problem_id prob) (updateProblemProgress now p state)
                  = Some new
           \<and> solved new = (solved old \<or> p)
           \<and> languages new (activeLanguage state) = Some lp \<and> passed lp = p"
proof -
  let ?xs = "userProgress state"
  from assms(2) obtain i where Some: "findIndex (\<lambda>q. problemId q = problem_id prob) ?xs = Some i"
    using findIndex_None [of "\<lambda>q. problemId q = problem_id prob" ?xs]
    by (cases "findIndex (\<lambda>q. problemId q = problem_id prob) ?xs")
       (auto simp: getProgressForProblem_def)
  from findIndex_Some [OF Some]
  have i: "i < length ?xs" and pi: "problemId (?xs ! i) = problem_id prob"
    and fi: "find (\<lambda>q. problemId q = problem_id prob) ?xs = Some (?xs ! i)"
    and before: "\<forall>j<i. problemId (?xs ! j) \<noteq> problem_id prob"
    by auto
  from fi assms(2) have old: "old = ?xs ! i" by (simp add: getProgressForProblem_def)
  let ?new = "(?xs ! i)\<lparr>solved := solved (?xs ! i) \<or> p, lastAttempted := now,
      languages := (languages (?xs ! i))(activeLanguage state \<mapsto>
        \<lparr>lang_code = code state, passed = p, lang_lastAttempted = now\<rparr>)\<rparr>"
  have upd: "userProgress (updateProblemProgress now p state) = ?xs[i := ?new]"
    using assms Some by (simp add: updateProblemProgress_def Let_def)
  have c: "find (\<lambda>q. problemId q = problem_id prob) (?xs[i := ?new]) = Some ?new"
    using i pi before by (intro find_update_first) auto
  show ?thesis
    using c old by (simp add: upd getProgressForProblem_def)
qed

theorem solved_monotone_witness:
  "currentProblem twoLanguages = Some (emptyProblem\<lparr>problem_id := S ''a''\<rparr>)
   \<and> (\<exists>old. getProgressForProblem (S ''a'') twoLanguages = Some old \<and> solved old)
   \<and> (\<exists>new lp. getProgressForProblem (S ''a'') (updateProblemProgress (S ''3'') False twoLanguages)
               = Some new \<and> solved new
             \<and> languages new clangpp = Some lp \<and> \<not> passed lp)"
proof -
  let ?prob = "emptyProblem\<lparr>problem_id := S ''a''\<rparr>"
  let ?old = "\<lparr>problemId = S ''a'', solved = True, lastAttempted = S ''2'',
          languages = [python \<mapsto> \<lparr>lang_code = S ''d'', passed = True, lang_lastAttempted = S ''2''\<rparr>]\<rparr>"
  have cp: "currentProblem twoLanguages = Some ?prob"
    by (simp add: twoLanguages_def)
  have pid: "problem_id ?prob = S ''a''" by simp
  have al: "activeLanguage twoLanguages = clangpp" by (simp add: twoLanguages_def)
  have old: "getProgressForProblem (S ''a'') twoLanguages = Some ?old"
    by (simp add: twoLanguages_def getProgressForProblem_def S_def)
  have so: "solved ?old" by simp
  from solved_monotone [OF cp, unfolded pid, OF old, of "S ''3''" False]
  obtain new lp where
    "getProgressForProblem (S ''a'') (updateProblemProgress (S ''3'') False twoLanguages) = Some new"
    "solved new = (solved ?old \<or> False)" "languages new (activeLanguage twoLanguages) = Some lp"
    "passed lp = False"
    by blast
  with cp old so al show ?thesis by auto
qed

section \<open>Properties of the submission\<close>

lemma sameContext_refl [simp]: "sameContext s s"
  by (simp add: sameContext_def)

lemma sameContext_setTestStatus [simp]:
  "sameContext s (setTestStatus i st fb s') = sameContext s s'"
  by (simp add: sameContext_def setTestStatus_def)

lemma sameContext_addTestCase [simp]:
  "sameContext s (addTestCase tc s') = sameContext s s'"
  by (simp add: sameContext_def addTestCase_def)

lemma sameSubmission_context: "sameSubmission s s' \<Longrightarrow> sameContext s s'"
  by (simp add: sameSubmission_def sameContext_def)

lemma sameContext_trans: "sameContext s s' \<Longrightarrow> sameContext s' s'' \<Longrightarrow> sameContext s s''"
  by (simp add: sameContext_def)

lemma fold_setTestStatus_context:
  "sameContext s (store (fold (\<lambda>tc. set_state (setTestStatus (tc_id tc) st fb)) tcs w)) =
   sameContext s (store w)"
  by (induction tcs arbitrary: w) simp_all

lemma fold_addTestCase_context:
  "sameContext s (store (fold (\<lambda>(i, t). set_state (addTestCase (fromTemplate (uuidv4 i) t))) xs w)) =
   sameContext s (store w)"
  by (induction xs arbitrary: w) (simp_all add: split_def)

text \<open>
  C4, as stated, fails for an empty list: a submission to a problem with no test cases
  records the problem as solved.
\<close>

theorem empty_problem_marked_solved:
  "userProgress (store (runTests cleanExitEngine noRegexp fixedUuid (S ''t'')
      (startWorld (emptyStore\<lparr>currentProblem := Some emptyProblem\<rparr>)))) =
   [\<lparr>problemId = S ''p'', solved = True, lastAttempted = S ''t'',
     languages = [python \<mapsto> \<lparr>lang_code = [], passed = True, lang_lastAttempted = S ''t''\<rparr>]\<rparr>]"
  by (simp add: runTests_def checkCode_def set_state_def updateProblemProgress_def allPassed_def
      emptyStore_def startWorld_def emptyProblem_def Let_def)

text \<open>
  C4, amended. After a submission to a current problem, the progress entry of the problem
  has the passed flag of the active language equal to "every test case of the store has
  the status pass", and its solved flag equal to that or the solved flag it had; for an
  empty list of test cases both flags are set.
\<close>

theorem runTests_aggregation:
  assumes "currentProblem (store w) = Some prob"
  shows "\<exists>entry lp.
           getProgressForProblem (problem_id prob) (store (runTests gw re uuidv4 now w)) = Some entry
         \<and> languages entry (activeLanguage (store w)) = Some lp
         \<and> passed lp = (\<forall>tc\<in>set (testCases (store (runTests gw re uuidv4 now w))). status tc = Pass)
         \<and> solved entry =
             ((case getProgressForProblem (problem_id prob) (store w) of
                 None \<Rightarrow> False | Some old \<Rightarrow> solved old)
              \<or> (\<forall>tc\<in>set (testCases (store (runTests gw re uuidv4 now w))). status tc = Pass))
         \<and> (testCases (store (runTests gw re uuidv4 now w)) = [] \<longrightarrow> passed lp \<and> solved entry)"
proof -
  let ?tcs = "testCases (store w)"
  let ?templates = "case currentProblem (store w) of None \<Rightarrow> None | Some p \<Rightarrow> problem_testCases p"
  define w1 where "w1 =
    (if ?tcs = [] then
       (case ?templates of
          Some ts \<Rightarrow> fold (\<lambda>(i, t). set_state (addTestCase (fromTemplate (uuidv4 i) t)))
                       (enumerate 0 ts) w
        | None \<Rightarrow> set_state (addTestCase (fallbackTestCase (uuidv4 0))) w)
     else w)"
  define w2 where "w2 = fold (\<lambda>testCase. set_state (setTestStatus (tc_id testCase) Checking None)) ?tcs w1"
  define w3 where "w3 = snd (checkCode gw re (code (store w)) w2)"
  have rt: "runTests gw re uuidv4 now w =
              set_state (updateProblemProgress now (allPassed (store w3))) w3"
    unfolding runTests_def Let_def w3_def w2_def w1_def by (simp only: case_checkCode)
  have c1: "sameContext (store w) (store w1)"
    by (simp add: w1_def fold_addTestCase_context split: option.splits)
  have c2: "sameContext (store w) (store w2)"
    using c1 by (simp add: w2_def fold_setTestStatus_context)
  have c3: "sameContext (store w) (store w3)"
    using sameContext_trans [OF c2 sameSubmission_context [OF checkCode_same] ]
    by (simp add: w3_def)
  then have cp: "currentProblem (store w3) = Some prob"
    and al: "activeLanguage (store w3) = activeLanguage (store w)"
    and up: "userProgress (store w3) = userProgress (store w)"
    using assms by (simp_all add: sameContext_def)
  have gp: "getProgressForProblem (problem_id prob) (store w3) =
            getProgressForProblem (problem_id prob) (store w)"
    by (simp add: getProgressForProblem_def up)
  have tc: "testCases (store (runTests gw re uuidv4 now w)) = testCases (store w3)"
    by (simp add: rt)
  have ap: "allPassed (store w3) = (\<forall>tc\<in>set (testCases (store w3)). status tc = Pass)"
    by (simp add: allPassed_def list_all_iff)
  from updateProblemProgress_entry [OF cp, of now "allPassed (store w3)"]
  obtain new where new:
    "getProgressForProblem (problem_id prob)
       (updateProblemProgress now (allPassed (store w3)) (store w3)) = Some new"
    "languages new (activeLanguage (store w3)) =
       Some \<lparr>lang_code = code (store w3), passed = allPassed (store w3), lang_lastAttempted = now\<rparr>"
    "solved new = ((case getProgressForProblem (problem_id prob) (store w3) of
                               None \<Rightarrow> False | Some old \<Rightarrow> solved old) \<or> allPassed (store w3))"
    by blast
  let ?lp = "\<lparr>lang_code = code (store w3), passed = allPassed (store w3), lang_lastAttempted = now\<rparr>"
  have "getProgressForProblem (problem_id prob) (store (runTests gw re uuidv4 now w)) = Some new"
    using new(1) by (simp add: rt)
  moreover have "languages new (activeLanguage (store w)) = Some ?lp"
    using new(2) al by simp
  moreover have "passed ?lp =
      (\<forall>tc\<in>set (testCases (store (runTests gw re uuidv4 now w))). status tc = Pass)"
    by (simp add: tc ap)
  moreover have "solved new =
             ((case getProgressForProblem (problem_id prob) (store w) of
                 None \<Rightarrow> False | Some old \<Rightarrow> solved old)
              \<or> (\<forall>tc\<in>set (testCases (store (runTests gw re uuidv4 now w))). status tc = Pass))"
    using new(3) by (simp add: gp tc ap)
  moreover have "testCases (store (runTests gw re uuidv4 now w)) = [] \<longrightarrow> passed ?lp \<and> solved new"
    using new(3) by (simp add: tc ap)
  ultimately show ?thesis by blast
qed

theorem runTests_aggregation_witness:
  "currentProblem (store (startWorld (emptyStore\<lparr>currentProblem := Some emptyProblem\<rparr>)))
     = Some emptyProblem
   \<and> testCases (store (runTests cleanExitEngine noRegexp fixedUuid (S ''t'')
        (startWorld (emptyStore\<lparr>currentProblem := Some emptyProblem\<rparr>)))) = []
   \<and> (\<exists>entry lp.
        getProgressForProblem (problem_id emptyProblem)
          (store (runTests cleanExitEngine noRegexp fixedUuid (S ''t'')
             (startWorld (emptyStore\<lparr>currentProblem := Some emptyProblem\<rparr>)))) = Some entry
        \<and> languages entry python = Some lp \<and> passed lp \<and> solved entry)"
proof -
  let ?w = "startWorld (emptyStore\<lparr>currentProblem := Some emptyProblem\<rparr>)"
  have cp: "currentProblem (store ?w) = Some emptyProblem"
    by (simp add: startWorld_def)
  have al: "activeLanguage (store ?w) = python"
    by (simp add: startWorld_def emptyStore_def)
  have e: "testCases (store (runTests cleanExitEngine noRegexp fixedUuid (S ''t'') ?w)) = []"
    by (simp add: run_defs submit_defs emptyStore_def emptyProblem_def)
  from runTests_aggregation [OF cp, of cleanExitEngine noRegexp fixedUuid "S ''t''"] e cp
  show ?thesis unfolding al by blast
qed

end
